theory Spec2Isabelle
  imports Main "HOL-Library.Word" "HOL-Library.Signed_Division"
begin

unbundle bit_operations_syntax

section \<open>Data model of main.cpp\<close>

text \<open>
  \<^verbatim>\<open>using Pixels = std::vector<std::uint32_t>;\<close> and
  \<^verbatim>\<open>using Cells = std::vector<std::uint8_t>;\<close>.
  The C++ \<^verbatim>\<open>int\<close> and \<^verbatim>\<open>std::uint32_t\<close> are both 32-bit words; an \<^verbatim>\<open>int\<close> is
  read in two's complement (\<open>sint\<close>, \<open><s\<close>), and the conversion between the two keeps
  the bits. Arithmetic on words wraps around. For \<^verbatim>\<open>int\<close> the source has undefined
  behaviour where the model wraps; the theorems below are about grids of fewer than
  \<open>2 ^ 31\<close> cells, for which the coordinates and indices of the source stay in the
  range of \<^verbatim>\<open>int\<close>.
\<close>

type_synonym u8 = "8 word"
type_synonym u32 = "32 word"
type_synonym Cells = "u8 list"
type_synonym Pixels = "u32 list"

text \<open>
  Element access without a bounds check (\<^verbatim>\<open>data[i]\<close>, \<^verbatim>\<open>cells[i]\<close>, \<^verbatim>\<open>*p\<close>): outside
  the buffer the source has undefined behaviour, which is the value \<open>None\<close> here.
\<close>

definition rd :: "'a list \<Rightarrow> int \<Rightarrow> 'a option" where
  "rd xs i = (if 0 \<le> i \<and> i < int (length xs) then Some (xs ! nat i) else None)"

definition wr :: "'a list \<Rightarrow> int \<Rightarrow> 'a \<Rightarrow> 'a list option" where
  "wr xs i v = (if 0 \<le> i \<and> i < int (length xs) then Some (xs[nat i := v]) else None)"

section \<open>Exceptions\<close>

text \<open>
  The exception classes that can leave the \<^verbatim>\<open>try\<close> block of \<^verbatim>\<open>main\<close>:
  \<^verbatim>\<open>std::runtime_error\<close> (thrown by \<^verbatim>\<open>main\<close> with a message) and
  \<^verbatim>\<open>std::length_error\<close> (thrown by a \<^verbatim>\<open>std::vector\<close> constructor asked for more
  than \<^verbatim>\<open>max_size()\<close> elements); \<open>Exception\<close> is an object whose dynamic type is the
  base class \<^verbatim>\<open>std::exception\<close> itself. \<^verbatim>\<open>what()\<close> is virtual: a derived object
  answers with its message, a plain \<^verbatim>\<open>std::exception\<close> with a text that the C++
  library chooses (the first argument; \<^verbatim>\<open>"std::exception"\<close> in libstdc++ and libc++).
\<close>

datatype exception = Exception | Runtime_error string | Length_error string

fun what :: "string \<Rightarrow> exception \<Rightarrow> string" where
  "what base Exception = base"
| "what base (Runtime_error msg) = msg"
| "what base (Length_error msg) = msg"

section \<open>Creation of the buffers\<close>

text \<open>
  \<^verbatim>\<open>Pixels(width * height, 0)\<close> and \<^verbatim>\<open>Cells cells(width * height, 0)\<close>: the product
  is an \<^verbatim>\<open>int\<close>, converted to the vector's unsigned size type; a negative product
  becomes a size above \<^verbatim>\<open>max_size()\<close> and the constructor throws. The argument
  \<open>msg\<close> is that exception's message, which the C++ library chooses. An allocation
  that fails for want of memory is left out.
\<close>

definition vector_size :: "u32 \<Rightarrow> u32 \<Rightarrow> string \<Rightarrow> exception + nat" where
  "vector_size width height msg =
     (if sint (width * height) < 0 then Inl (Length_error msg)
      else Inr (nat (sint (width * height))))"

text \<open>\<^verbatim>\<open>createPixelData\<close> (lines 117-119).\<close>

definition createPixelData :: "u32 \<Rightarrow> u32 \<Rightarrow> string \<Rightarrow> exception + Pixels" where
  "createPixelData width height msg =
     (case vector_size width height msg of Inl e \<Rightarrow> Inl e
      | Inr n \<Rightarrow> Inr (replicate n 0))"

text \<open>
  \<^verbatim>\<open>createCells\<close> (lines 121-131). \<open>draws i\<close> is the value of the \<open>i\<close>-th call
  \<^verbatim>\<open>dist(mt)\<close>; \<^verbatim>\<open>std::generate\<close> calls the lambda once per cell, first to last.
  The lambda returns \<^verbatim>\<open>dist(mt) < 15\<close>, a \<^verbatim>\<open>bool\<close> stored as 1 or 0.
\<close>

definition seed :: "u8 \<Rightarrow> u8" where
  "seed d = (if d < 15 then 1 else 0)"

definition createCells :: "u32 \<Rightarrow> u32 \<Rightarrow> string \<Rightarrow> (nat \<Rightarrow> u8) \<Rightarrow> exception + Cells" where
  "createCells width height msg draws =
     (case vector_size width height msg of Inl e \<Rightarrow> Inl e
      | Inr n \<Rightarrow> Inr (map (\<lambda>i. seed (draws i)) [0..<n]))"

text \<open>
  \<^verbatim>\<open>std::uniform_int_distribution<uint8_t> dist(0, 100)\<close>: the values a call can
  return, each as likely as any other. Both bounds are included.
\<close>

definition dist_values :: "u8 list" where
  "dist_values = map of_nat [0..<Suc 100]"

section \<open>Cell grid\<close>

text \<open>
  \<^verbatim>\<open>isLive\<close> (lines 133-137): the guard, then the read of \<^verbatim>\<open>data[y * w + x]\<close>
  converted to \<^verbatim>\<open>bool\<close>.
\<close>

definition isLive :: "Cells \<Rightarrow> u32 \<Rightarrow> u32 \<Rightarrow> u32 \<Rightarrow> u32 \<Rightarrow> bool option" where
  "isLive data x y w h =
     (if 0 <s x \<and> 0 <s y \<and> x <s w \<and> y <s h
      then map_option (\<lambda>v. v \<noteq> 0) (rd data (sint (y * w + x)))
      else Some False)"

text \<open>
  \<^verbatim>\<open>count += isLive(...)\<close> on a \<^verbatim>\<open>std::uint8_t\<close>: the \<^verbatim>\<open>bool\<close> is added as 0 or 1.
\<close>

definition add_live :: "u8 option \<Rightarrow> bool option \<Rightarrow> u8 option" where
  "add_live count b =
     (case count of None \<Rightarrow> None
      | Some c \<Rightarrow> (case b of None \<Rightarrow> None | Some l \<Rightarrow> Some (c + (if l then 1 else 0))))"

text \<open>\<^verbatim>\<open>neighbors\<close> (lines 139-152), the eight probes in the order of the source.\<close>

definition neighbors :: "Cells \<Rightarrow> u32 \<Rightarrow> u32 \<Rightarrow> u32 \<Rightarrow> u32 \<Rightarrow> u8 option" where
  "neighbors data x y w h =
     add_live (add_live (add_live
       (add_live (add_live
         (add_live (add_live (add_live (Some 0)
           (isLive data (x - 1) (y - 1) w h))
           (isLive data x (y - 1) w h))
           (isLive data (x + 1) (y - 1) w h))
         (isLive data (x - 1) y w h))
         (isLive data (x + 1) y w h))
       (isLive data (x - 1) (y + 1) w h))
       (isLive data x (y + 1) w h))
       (isLive data (x + 1) (y + 1) w h)"

text \<open>
  The body of the inner loop of \<^verbatim>\<open>updateCells\<close> (lines 160-171): \<open>data\<close> is the
  snapshot \<^verbatim>\<open>old\<close>, \<open>cells\<close> the grid being written.
\<close>

definition updateCell :: "Cells \<Rightarrow> u32 \<Rightarrow> u32 \<Rightarrow> u32 \<Rightarrow> u32 \<Rightarrow> Cells \<Rightarrow> Cells option" where
  "updateCell data w h y x cells =
     (let index = y * w + x in
      case neighbors data x y w h of None \<Rightarrow> None
      | Some count \<Rightarrow>
         (case rd data (uint index) of None \<Rightarrow> None
          | Some d \<Rightarrow>
             if d \<noteq> 0 then
               (if count < 2 \<or> count > 3 then wr cells (uint index) 0
                else (case rd cells (uint index) of None \<Rightarrow> None
                      | Some c \<Rightarrow> if c < 0xFF then wr cells (uint index) (c + 1) else Some cells))
             else
               (if count = 3 then wr cells (uint index) 1 else Some cells)))"

text \<open>The loop over \<^verbatim>\<open>x\<close> (line 159) and the loop over \<^verbatim>\<open>y\<close> (line 158).\<close>

function updateRow :: "Cells \<Rightarrow> u32 \<Rightarrow> u32 \<Rightarrow> u32 \<Rightarrow> u32 \<Rightarrow> Cells \<Rightarrow> Cells option" where
  "updateRow data w h y x cells =
     (if x < w
      then (case updateCell data w h y x cells of None \<Rightarrow> None
            | Some cells' \<Rightarrow> updateRow data w h y (x + 1) cells')
      else Some cells)"
  by pat_completeness auto
termination
  by (relation "measure (\<lambda>(data, w, h, y, x, cells). unat w - unat x)") (simp, simp, unat_arith)

function updateRows :: "Cells \<Rightarrow> u32 \<Rightarrow> u32 \<Rightarrow> u32 \<Rightarrow> Cells \<Rightarrow> Cells option" where
  "updateRows data w h y cells =
     (if y < h
      then (case updateRow data w h y 0 cells of None \<Rightarrow> None
            | Some cells' \<Rightarrow> updateRows data w h (y + 1) cells')
      else Some cells)"
  by pat_completeness auto
termination
  by (relation "measure (\<lambda>(data, w, h, y, cells). unat h - unat y)") (simp, simp, unat_arith)

text \<open>
  \<^verbatim>\<open>updateCells\<close> (lines 154-174): \<^verbatim>\<open>const Cells old(cells)\<close> is the snapshot the
  loops read, \<^verbatim>\<open>cells\<close> is written in place.
\<close>

definition updateCells :: "Cells \<Rightarrow> u32 \<Rightarrow> u32 \<Rightarrow> Cells option" where
  "updateCells cells w h = updateRows cells w h 0 cells"

section \<open>Pixel encoder\<close>

text \<open>
  The right-hand side of line 180: \<^verbatim>\<open>*c ? (0x0000ff00 | *c << 24) : 0x00000000\<close>.
  The shift binds tighter than the bitwise or; the cell byte is promoted to 32 bits
  before the shift, and the bits of the result are stored in the pixel (for a cell of
  128 or more the shift reaches the sign bit of the \<^verbatim>\<open>int\<close>).
\<close>

definition pixel :: "u8 \<Rightarrow> u32" where
  "pixel c = (if c \<noteq> 0 then 0x0000ff00 OR push_bit 24 (ucast c) else 0x00000000)"

text \<open>
  \<^verbatim>\<open>updatePixelData\<close> (lines 176-182): the loop runs over \<^verbatim>\<open>cells\<close> and advances the
  pixel iterator with it; writing past the end of \<^verbatim>\<open>pixels\<close> is undefined, and
  pixels beyond the last cell are left as they were.
\<close>

fun updatePixelData :: "Pixels \<Rightarrow> Cells \<Rightarrow> Pixels option" where
  "updatePixelData pixels [] = Some pixels"
| "updatePixelData [] (c # cells) = None"
| "updatePixelData (p # pixels) (c # cells) =
     map_option (\<lambda>rest. pixel c # rest) (updatePixelData pixels cells)"

section \<open>Frame loop\<close>

text \<open>
  What \<^verbatim>\<open>main\<close> asks of SDL and of the C++ library, as data: the values the calls
  return, the events each drain of the queue finds (one list per pass of the outer loop,
  in the order \<^verbatim>\<open>SDL_PollEvent\<close> delivers them), the draws of the random
  distribution, and the two texts the C++ library chooses.
\<close>

datatype keycode = SDLK_ESCAPE | SDLK_other

datatype event = SDL_KEYDOWN keycode | SDL_QUIT | SDL_other

record platform =
  SDL_Init :: u32
  SDL_GetCurrentDisplayMode :: u32
  current_w :: u32
  current_h :: u32
  create_window :: bool
  create_renderer :: bool
  create_texture :: bool
  dist :: "nat \<Rightarrow> u8"
  SDL_PollEvent :: "event list list"
  exception_what :: string
  length_error_what :: string

text \<open>
  The steps of one pass of the loop (lines 62-78), with the data each leaves behind:
  the pixel buffer after \<^verbatim>\<open>updatePixelData\<close>, the grid after \<^verbatim>\<open>updateCells\<close>, the
  buffer handed to \<^verbatim>\<open>SDL_UpdateTexture\<close> and shown by \<^verbatim>\<open>SDL_RenderPresent\<close>, and
  the events the inner loop took from the queue.
\<close>

datatype step = Encoded Pixels | Advanced Cells | Presented Pixels | Drained "event list"

text \<open>
  How a run ends: \<^verbatim>\<open>return\<close> with a code, undefined behaviour (an access outside a
  buffer), or still in the loop when the described events are used up.
\<close>

datatype outcome = Return int | Undefined | Running

text \<open>The inner loop with its \<^verbatim>\<open>switch\<close> (lines 68-78); the result is \<^verbatim>\<open>run\<close>.\<close>

fun poll_events :: "event list \<Rightarrow> bool \<Rightarrow> bool" where
  "poll_events [] run = run"
| "poll_events (SDL_KEYDOWN keysym # events) run =
     poll_events events (if keysym = SDLK_ESCAPE then False else run)"
| "poll_events (SDL_QUIT # events) run = poll_events events False"
| "poll_events (SDL_other # events) run = poll_events events run"

text \<open>
  The loop \<^verbatim>\<open>while(run)\<close> (lines 61-79) followed by \<^verbatim>\<open>SDL_Quit(); return 0;\<close>.
  It is entered with \<^verbatim>\<open>run = true\<close>.
\<close>

fun frame_loop :: "u32 \<Rightarrow> u32 \<Rightarrow> Pixels \<Rightarrow> Cells \<Rightarrow> event list list \<Rightarrow> step list \<times> outcome" where
  "frame_loop field_w field_h pixels cells [] = ([], Running)"
| "frame_loop field_w field_h pixels cells (events # later) =
     (case updatePixelData pixels cells of None \<Rightarrow> ([], Undefined)
      | Some pixels' \<Rightarrow>
         (case updateCells cells field_w field_h of None \<Rightarrow> ([Encoded pixels'], Undefined)
          | Some cells' \<Rightarrow>
             (if poll_events events True
              then (case frame_loop field_w field_h pixels' cells' later of
                      (steps, out) \<Rightarrow>
                        (Encoded pixels' # Advanced cells' # Presented pixels' # Drained events # steps,
                         out))
              else ([Encoded pixels', Advanced cells', Presented pixels', Drained events],
                    Return 0))))"

text \<open>
  The handler (lines 83-87): \<^verbatim>\<open>catch(std::exception e)\<close> takes the exception by
  value, so \<open>e\<close> is a copy of the base-class part of the thrown object and its dynamic
  type is \<^verbatim>\<open>std::exception\<close>. The result is the text sent to \<^verbatim>\<open>std::cerr\<close> and the
  return code.
\<close>

definition catch_by_value :: "exception \<Rightarrow> exception" where
  "catch_by_value thrown = Exception"

definition handler :: "platform \<Rightarrow> exception \<Rightarrow> step list \<times> string list \<times> outcome" where
  "handler p thrown =
     (let e = catch_by_value thrown in ([], [what (exception_what p) e], Return 1))"

text \<open>
  \<^verbatim>\<open>main\<close> (lines 27-87): the steps of the loop, the lines written to \<^verbatim>\<open>std::cerr\<close>
  and the outcome. \<^verbatim>\<open>width / 2\<close> is the division of \<^verbatim>\<open>int\<close>, which truncates.
\<close>

definition main :: "platform \<Rightarrow> step list \<times> string list \<times> outcome" where
  "main p =
     (if SDL_Init p \<noteq> 0 then handler p (Runtime_error ''SDL initialize failed!'')
      else if SDL_GetCurrentDisplayMode p \<noteq> 0
      then handler p (Runtime_error ''SDL can't get resolution!'')
      else
        let width = current_w p; height = current_h p;
            field_w = word_of_int (sint width sdiv 2) :: u32;
            field_h = word_of_int (sint height sdiv 2) :: u32
        in
          if \<not> create_window p then handler p (Runtime_error ''Create window failed'')
          else if \<not> create_renderer p then handler p (Runtime_error ''Create renderer failed'')
          else if \<not> create_texture p then handler p (Runtime_error ''Create texture failed'')
          else
            (case createPixelData field_w field_h (length_error_what p) of
               Inl e \<Rightarrow> handler p e
             | Inr pixels \<Rightarrow>
                (case createCells field_w field_h (length_error_what p) (dist p) of
                   Inl e \<Rightarrow> handler p e
                 | Inr cells \<Rightarrow>
                    (case frame_loop field_w field_h pixels cells (SDL_PollEvent p) of
                       (steps, out) \<Rightarrow> (steps, [], out)))))"

text \<open>
  Repeated calls of \<^verbatim>\<open>updateCells\<close> on the same grid, as the loop of \<^verbatim>\<open>main\<close> makes
  them: the grid after \<open>n\<close> generations.
\<close>

fun generations :: "nat \<Rightarrow> Cells \<Rightarrow> u32 \<Rightarrow> u32 \<Rightarrow> Cells option" where
  "generations 0 cells w h = Some cells"
| "generations (Suc n) cells w h =
     (case updateCells cells w h of None \<Rightarrow> None
      | Some cells' \<Rightarrow> generations n cells' w h)"

section \<open>The cell grid with the memory around its buffers\<close>

text \<open>
  The functions of the cell grid once more, line for line, with the other reading of an
  access outside a buffer: a read there returns what the memory at that place holds,
  and a write changes it. \<open>around\<close> is the memory around the snapshot \<^verbatim>\<open>old\<close> and
  \<open>beyond\<close> the memory around the grid \<^verbatim>\<open>cells\<close>, each addressed by the index
  relative to its buffer. What they hold is no argument of the C++ functions and can
  differ from one run to the next.
\<close>

definition rd_mem :: "(int \<Rightarrow> 'a) \<Rightarrow> 'a list \<Rightarrow> int \<Rightarrow> 'a" where
  "rd_mem around xs i = (if 0 \<le> i \<and> i < int (length xs) then xs ! nat i else around i)"

definition wr_mem :: "(int \<Rightarrow> 'a) \<Rightarrow> 'a list \<Rightarrow> int \<Rightarrow> 'a \<Rightarrow> 'a list \<times> (int \<Rightarrow> 'a)" where
  "wr_mem around xs i v =
     (if 0 \<le> i \<and> i < int (length xs) then (xs[nat i := v], around) else (xs, around(i := v)))"

text \<open>\<^verbatim>\<open>isLive\<close> (lines 133-137) and \<^verbatim>\<open>neighbors\<close> (lines 139-152).\<close>

definition isLive_mem :: "(int \<Rightarrow> u8) \<Rightarrow> Cells \<Rightarrow> u32 \<Rightarrow> u32 \<Rightarrow> u32 \<Rightarrow> u32 \<Rightarrow> bool" where
  "isLive_mem around data x y w h =
     (if 0 <s x \<and> 0 <s y \<and> x <s w \<and> y <s h
      then rd_mem around data (sint (y * w + x)) \<noteq> 0
      else False)"

definition neighbors_mem :: "(int \<Rightarrow> u8) \<Rightarrow> Cells \<Rightarrow> u32 \<Rightarrow> u32 \<Rightarrow> u32 \<Rightarrow> u32 \<Rightarrow> u8" where
  "neighbors_mem around data x y w h =
     0 + of_bool (isLive_mem around data (x - 1) (y - 1) w h)
       + of_bool (isLive_mem around data x (y - 1) w h)
       + of_bool (isLive_mem around data (x + 1) (y - 1) w h)
       + of_bool (isLive_mem around data (x - 1) y w h)
       + of_bool (isLive_mem around data (x + 1) y w h)
       + of_bool (isLive_mem around data (x - 1) (y + 1) w h)
       + of_bool (isLive_mem around data x (y + 1) w h)
       + of_bool (isLive_mem around data (x + 1) (y + 1) w h)"

text \<open>
  The body of the inner loop (lines 160-171), on the grid together with the memory
  around it.
\<close>

definition updateCell_mem ::
  "(int \<Rightarrow> u8) \<Rightarrow> Cells \<Rightarrow> u32 \<Rightarrow> u32 \<Rightarrow> u32 \<Rightarrow> u32 \<Rightarrow> Cells \<times> (int \<Rightarrow> u8) \<Rightarrow> Cells \<times> (int \<Rightarrow> u8)" where
  "updateCell_mem around data w h y x state =
     (case state of (cells, beyond) \<Rightarrow>
      let index = y * w + x; count = neighbors_mem around data x y w h in
      if rd_mem around data (uint index) \<noteq> 0 then
        (if count < 2 \<or> count > 3 then wr_mem beyond cells (uint index) 0
         else if rd_mem beyond cells (uint index) < 0xFF
              then wr_mem beyond cells (uint index) (rd_mem beyond cells (uint index) + 1)
              else (cells, beyond))
      else
        (if count = 3 then wr_mem beyond cells (uint index) 1 else (cells, beyond)))"

text \<open>The two loops (lines 158-159) and \<^verbatim>\<open>updateCells\<close> (lines 154-174).\<close>

function updateRow_mem ::
  "(int \<Rightarrow> u8) \<Rightarrow> Cells \<Rightarrow> u32 \<Rightarrow> u32 \<Rightarrow> u32 \<Rightarrow> u32 \<Rightarrow> Cells \<times> (int \<Rightarrow> u8) \<Rightarrow> Cells \<times> (int \<Rightarrow> u8)" where
  "updateRow_mem around data w h y x state =
     (if x < w
      then updateRow_mem around data w h y (x + 1) (updateCell_mem around data w h y x state)
      else state)"
  by pat_completeness auto
termination
  by (relation "measure (\<lambda>(around, data, w, h, y, x, state). unat w - unat x)") (simp, unat_arith)

function updateRows_mem ::
  "(int \<Rightarrow> u8) \<Rightarrow> Cells \<Rightarrow> u32 \<Rightarrow> u32 \<Rightarrow> u32 \<Rightarrow> Cells \<times> (int \<Rightarrow> u8) \<Rightarrow> Cells \<times> (int \<Rightarrow> u8)" where
  "updateRows_mem around data w h y state =
     (if y < h
      then updateRows_mem around data w h (y + 1) (updateRow_mem around data w h y 0 state)
      else state)"
  by pat_completeness auto
termination
  by (relation "measure (\<lambda>(around, data, w, h, y, state). unat h - unat y)") (simp, unat_arith)

definition updateCells_mem ::
  "(int \<Rightarrow> u8) \<Rightarrow> (int \<Rightarrow> u8) \<Rightarrow> Cells \<Rightarrow> u32 \<Rightarrow> u32 \<Rightarrow> Cells \<times> (int \<Rightarrow> u8)" where
  "updateCells_mem around beyond cells w h = updateRows_mem around cells w h 0 (cells, beyond)"

text \<open>
  An example of a platform: everything succeeds, the display is 6 by 6, so the field is
  3 by 3; none of the nine draws of the seeding is below 15; the second drain of the queue finds \<^verbatim>\<open>SDL_QUIT\<close>.
\<close>

definition demo :: platform where
  "demo = \<lparr>SDL_Init = 0, SDL_GetCurrentDisplayMode = 0, current_w = 6, current_h = 6,
     create_window = True, create_renderer = True, create_texture = True,
     dist = (\<lambda>i. if i < 9 then 20 else 3),
     SDL_PollEvent = [[SDL_other], [SDL_QUIT]],
     exception_what = ''std::exception'', length_error_what = ''vector''\<rparr>"

text \<open>
  An example of a grid: 3 by 3, dead except for the block of the four cells off the top
  row and the leftmost column, all of one age.
\<close>

definition block_3x3 :: "u8 \<Rightarrow> Cells" where
  "block_3x3 age = [0, 0, 0, 0, age, age, 0, age, age]"

section \<open>The specification's rule\<close>

text \<open>
  The neighbour count in the words of the specification: a position \<open>(nx, ny)\<close> counts
  when it lies strictly inside the lower bound \<open>(0, 0)\<close> and the upper bound
  \<open>(W, H)\<close> and the cell there is not 0.
\<close>

definition spec_counted :: "Cells \<Rightarrow> nat \<Rightarrow> nat \<Rightarrow> int \<Rightarrow> int \<Rightarrow> bool" where
  "spec_counted data W H nx ny =
     (0 < nx \<and> 0 < ny \<and> nx < int W \<and> ny < int H \<and> data ! nat (ny * int W + nx) \<noteq> 0)"

text \<open>The eight positions of the Moore neighbourhood of \<open>(x, y)\<close>.\<close>

definition moore :: "int \<Rightarrow> int \<Rightarrow> (int \<times> int) list" where
  "moore x y =
     [(x - 1, y - 1), (x, y - 1), (x + 1, y - 1),
      (x - 1, y), (x + 1, y),
      (x - 1, y + 1), (x, y + 1), (x + 1, y + 1)]"

text \<open>How many of the eight neighbours of \<open>(X, Y)\<close> count.\<close>

definition spec_neighbor_count :: "Cells \<Rightarrow> nat \<Rightarrow> nat \<Rightarrow> nat \<Rightarrow> nat \<Rightarrow> nat" where
  "spec_neighbor_count data W H X Y =
     length (filter (\<lambda>(nx, ny). spec_counted data W H nx ny) (moore (int X) (int Y)))"

text \<open>
  The update rule in the words of the specification, for a cell of the given age with
  the given neighbour count.
\<close>

definition spec_rule :: "u8 \<Rightarrow> u8 \<Rightarrow> u8" where
  "spec_rule age count =
     (if age \<noteq> 0 \<and> (count < 2 \<or> count > 3) then 0
      else if age \<noteq> 0 \<and> (count = 2 \<or> count = 3) then (if age = 255 then 255 else age + 1)
      else if age = 0 \<and> count = 3 then 1
      else age)"

text \<open>The rule at index \<open>i\<close> of a grid \<open>W\<close> wide, read from the snapshot \<open>data\<close>.\<close>

definition spec_cell :: "Cells \<Rightarrow> nat \<Rightarrow> nat \<Rightarrow> nat \<Rightarrow> u8" where
  "spec_cell data W H i = spec_rule (data ! i) (of_nat (spec_neighbor_count data W H (i mod W) (i div W)))"

text \<open>The next generation: the rule at every index, all read from the same snapshot.\<close>

definition spec_generation :: "Cells \<Rightarrow> nat \<Rightarrow> nat \<Rightarrow> Cells" where
  "spec_generation data W H = map (spec_cell data W H) [0..<W * H]"

section \<open>Machine arithmetic of the grid indices\<close>

lemma sint_wi32: "- (2 ^ 31) \<le> k \<Longrightarrow> k < 2 ^ 31 \<Longrightarrow> sint (word_of_int k :: u32) = k"
  by (simp add: sint_sbintrunc' signed_take_bit_int_eq_self)

lemma sint_unat32: "unat (w :: u32) < 2 ^ 31 \<Longrightarrow> sint w = int (unat w)"
proof -
  assume "unat w < 2 ^ 31"
  then have "int (unat w) < 2 ^ 31" by (metis of_nat_less_numeral_power_cancel_iff)
  moreover have "- (2 ^ 31) \<le> int (unat w)"
    by (rule order_trans [of _ 0]) simp_all
  ultimately have "sint (word_of_int (int (unat w)) :: u32) = int (unat w)"
    by (rule sint_wi32 [rotated])
  then show ?thesis by simp
qed

lemma grid_bounds:
  assumes "0 < nx" "nx < int W" "0 < ny" "ny < int H"
  shows "0 \<le> ny * int W + nx" "ny * int W + nx < int (W * H)"
proof -
  show "0 \<le> ny * int W + nx" using assms by simp
  have "ny + 1 \<le> int H" using assms by simp
  then have "(ny + 1) * int W \<le> int H * int W"
    by (rule mult_right_mono) simp
  then show "ny * int W + nx < int (W * H)" using assms
    by (simp add: algebra_simps)
qed

lemma isLive_eq:
  assumes len: "length data = unat w * unat h"
    and small: "unat w * unat h < 2 ^ 31"
    and pos: "0 < unat w" "0 < unat h"
    and nx: "- (2 ^ 31) \<le> nx" "nx < 2 ^ 31"
    and ny: "- (2 ^ 31) \<le> ny" "ny < 2 ^ 31"
  shows "isLive data (word_of_int nx) (word_of_int ny) w h = Some (spec_counted data (unat w) (unat h) nx ny)"
proof -
  define W H where "W = unat w" and "H = unat h"
  have Wle: "W \<le> W * H" and Hle: "H \<le> W * H" using pos by (simp_all add: W_def H_def)
  have W31: "W < 2 ^ 31" and H31: "H < 2 ^ 31"
    using Wle Hle small unfolding W_def H_def by linarith+
  have sw: "sint w = int W" and sh: "sint h = int H"
    using W31 H31 unfolding W_def H_def by (simp_all add: sint_unat32)
  have sx: "sint (word_of_int nx :: u32) = nx" and sy: "sint (word_of_int ny :: u32) = ny"
    using nx ny by (simp_all add: sint_wi32)
  have w_wi: "w = word_of_int (int W)" unfolding W_def by simp
  show ?thesis
  proof (cases "0 < nx \<and> 0 < ny \<and> nx < int W \<and> ny < int H")
    case True
    then have b: "0 \<le> ny * int W + nx" "ny * int W + nx < int (W * H)"
      using grid_bounds [of nx W ny H] by simp_all
    have "word_of_int ny * w + word_of_int nx = (word_of_int (ny * int W + nx) :: u32)"
      by (subst w_wi) (simp add: wi_hom_mult wi_hom_add)
    moreover have "sint (word_of_int (ny * int W + nx) :: u32) = ny * int W + nx"
    proof (rule sint_wi32)
      show "- (2 ^ 31) \<le> ny * int W + nx" using b(1) by simp
      have "int (W * H) < 2 ^ 31" using small unfolding W_def H_def
        by (metis of_nat_less_numeral_power_cancel_iff)
      then show "ny * int W + nx < 2 ^ 31" using b(2) by linarith
    qed
    ultimately have idx: "sint (word_of_int ny * w + word_of_int nx) = ny * int W + nx"
      by simp
    show ?thesis
      using True b len
      by (simp add: isLive_def word_sless_alt sw sh sx sy idx rd_def spec_counted_def
            flip: W_def H_def)
  next
    case False
    then show ?thesis
      by (auto simp add: isLive_def word_sless_alt sw sh sx sy spec_counted_def simp flip: W_def H_def)
  qed
qed

lemma add_live_Some: "add_live (Some c) (Some b) = Some (c + of_bool b)"
  by (simp add: add_live_def)

lemma count_Cons: "of_nat (length (filter P (a # xs))) = (of_bool (P a) + of_nat (length (filter P xs)) :: u8)"
  by simp

lemma spec_neighbor_count_le: "spec_neighbor_count data W H X Y \<le> 8"
  unfolding spec_neighbor_count_def
  by (rule order_trans [OF length_filter_le]) (simp add: moore_def)

lemma neighbors_eq:
  assumes len: "length data = unat w * unat h"
    and small: "unat w * unat h < 2 ^ 31"
    and x: "x < w" and y: "y < h"
  shows "neighbors data x y w h = Some (of_nat (spec_neighbor_count data (unat w) (unat h) (unat x) (unat y)))"
proof -
  define X Y where "X = unat x" and "Y = unat y"
  have pos: "0 < unat w" "0 < unat h" using x y by (simp_all add: word_less_nat_alt)
  have "unat w \<le> unat w * unat h" "unat h \<le> unat w * unat h" using pos by simp_all
  then have "unat w < 2 ^ 31" "unat h < 2 ^ 31" using small by linarith+
  then have "Suc X < 2 ^ 31" "Suc Y < 2 ^ 31"
    using x y unfolding X_def Y_def word_less_nat_alt by linarith+
  then have "int (Suc X) < 2 ^ 31" "int (Suc Y) < 2 ^ 31"
    by (metis of_nat_less_numeral_power_cancel_iff)+
  then have Xi: "int X + 1 < 2 ^ 31" and Yi: "int Y + 1 < 2 ^ 31"
    by simp_all
  have low: "- (2 ^ 31) \<le> (- 1 :: int)" by simp
  have G: "isLive data (word_of_int (int X + dx)) (word_of_int (int Y + dy)) w h
              = Some (spec_counted data (unat w) (unat h) (int X + dx) (int Y + dy))"
    if "\<bar>dx\<bar> \<le> 1" "\<bar>dy\<bar> \<le> 1" for dx dy
  proof (rule isLive_eq [OF len small pos])
    have m: "- 1 \<le> int X + dx" "- 1 \<le> int Y + dy" using that by linarith+
    show "- (2 ^ 31) \<le> int X + dx" by (rule order_trans [OF low m(1)])
    show "- (2 ^ 31) \<le> int Y + dy" by (rule order_trans [OF low m(2)])
    show "int X + dx < 2 ^ 31" using that(1) Xi by linarith
    show "int Y + dy < 2 ^ 31" using that(2) Yi by linarith
  qed
  have I: "isLive data (x - 1) (y - 1) w h = Some (spec_counted data (unat w) (unat h) (int X - 1) (int Y - 1))"
    "isLive data x (y - 1) w h = Some (spec_counted data (unat w) (unat h) (int X) (int Y - 1))"
    "isLive data (x + 1) (y - 1) w h = Some (spec_counted data (unat w) (unat h) (int X + 1) (int Y - 1))"
    "isLive data (x - 1) y w h = Some (spec_counted data (unat w) (unat h) (int X - 1) (int Y))"
    "isLive data (x + 1) y w h = Some (spec_counted data (unat w) (unat h) (int X + 1) (int Y))"
    "isLive data (x - 1) (y + 1) w h = Some (spec_counted data (unat w) (unat h) (int X - 1) (int Y + 1))"
    "isLive data x (y + 1) w h = Some (spec_counted data (unat w) (unat h) (int X) (int Y + 1))"
    "isLive data (x + 1) (y + 1) w h = Some (spec_counted data (unat w) (unat h) (int X + 1) (int Y + 1))"
    using G [of "-1" "-1"] G [of 0 "-1"] G [of 1 "-1"] G [of "-1" 0] G [of 1 0]
      G [of "-1" 1] G [of 0 1] G [of 1 1]
    by (simp_all add: X_def Y_def)
  show ?thesis
    unfolding neighbors_def I add_live_Some spec_neighbor_count_def moore_def count_Cons
    by (simp add: X_def Y_def ac_simps)
qed

lemma cell_index:
  assumes small: "unat w * unat h < 2 ^ 31" and x: "x < w" and y: "y < (h :: u32)"
  shows "unat y * unat w + unat x < unat w * unat h"
    and "uint (y * w + x) = int (unat y * unat w + unat x)"
proof -
  have "Suc (unat y) \<le> unat h" using y by (simp add: word_less_nat_alt)
  then have "Suc (unat y) * unat w \<le> unat h * unat w" by (rule mult_le_mono1)
  then show lt: "unat y * unat w + unat x < unat w * unat h"
    using x by (simp add: word_less_nat_alt mult.commute)
  have "(2::nat) ^ 31 \<le> 2 ^ 32" by simp
  then have big: "unat w * unat h < 2 ^ 32" using small by linarith
  have "unat y * unat w < 2 ^ LENGTH(32)" using lt big by simp
  then have m: "unat (y * w) = unat y * unat w" by (simp only: unat_mult_lem)
  have "unat (y * w) + unat x < 2 ^ LENGTH(32)" using lt big m by simp
  then have "unat (y * w + x) = unat (y * w) + unat x" by (simp only: unat_add_lem)
  then show "uint (y * w + x) = int (unat y * unat w + unat x)"
    using m by (simp only: uint_nat)
qed

lemma word_cmp_8: "n \<le> 8 \<Longrightarrow> ((of_nat n :: u8) < 2 \<longleftrightarrow> n < 2) \<and> ((of_nat n :: u8) > 3 \<longleftrightarrow> n > 3)
   \<and> ((of_nat n :: u8) = 3 \<longleftrightarrow> n = 3) \<and> ((of_nat n :: u8) = 2 \<longleftrightarrow> n = 2)"
proof -
  assume "n \<le> 8"
  then have u: "unat (of_nat n :: u8) = n" by (simp add: unat_of_nat)
  have k: "unat (2 :: u8) = 2" "unat (3 :: u8) = 3" by simp_all
  show ?thesis
    unfolding word_less_nat_alt word_unat_eq_iff u k by simp
qed

lemma u8_max: "(a :: u8) < 255 \<longleftrightarrow> a \<noteq> 255"
proof -
  have "(255 :: u8) = - 1" by simp
  then show ?thesis by (simp only: word_order.not_eq_extremum)
qed

lemma updateCell_eq:
  assumes len: "length data = unat w * unat h"
    and small: "unat w * unat h < 2 ^ 31"
    and x: "x < w" and y: "y < h"
    and p: "p = unat y * unat w + unat x"
    and lc: "length cells = length data"
    and same: "cells ! p = data ! p"
  shows "updateCell data w h y x cells = Some (cells[p := spec_cell data (unat w) (unat h) p])"
proof -
  have plt: "p < unat w * unat h" and idx: "uint (y * w + x) = int p"
    using cell_index [OF small x y] p by simp_all
  have W0: "unat x < unat w" using x by (simp add: word_less_nat_alt)
  have md: "p mod unat w = unat x" "p div unat w = unat y"
    using W0 p by simp_all
  define c where "c = spec_neighbor_count data (unat w) (unat h) (unat x) (unat y)"
  have c8: "c \<le> 8" unfolding c_def by (rule spec_neighbor_count_le)
  note cmp = word_cmp_8 [OF c8]
  have nb: "neighbors data x y w h = Some (of_nat c)"
    unfolding c_def by (rule neighbors_eq [OF len small x y])
  have rdd: "rd data (int p) = Some (data ! p)" "rd cells (int p) = Some (data ! p)"
  proof -
    have "p < length data" "p < length cells" using plt len lc by simp_all
    then show "rd data (int p) = Some (data ! p)" "rd cells (int p) = Some (data ! p)"
      using same by (simp_all add: rd_def)
  qed
  have wrc: "wr cells (int p) v = Some (cells[p := v])" for v
  proof -
    have "p < length cells" using plt len lc by simp
    then show ?thesis by (simp add: wr_def)
  qed
  have nc: "spec_cell data (unat w) (unat h) p = spec_rule (data ! p) (of_nat c)"
    by (simp add: spec_cell_def md c_def)
  have keep: "cells[p := data ! p] = cells"
    using same [symmetric] by (simp only: list_update_id)
  show ?thesis
    unfolding updateCell_def Let_def idx nb rdd wrc nc option.case
    using cmp keep
    by (auto simp add: spec_rule_def u8_max)
qed

lemma length_spec_generation: "length (spec_generation data W H) = W * H"
  by (simp add: spec_generation_def)

lemma nth_spec_generation: "i < W * H \<Longrightarrow> spec_generation data W H ! i = spec_cell data W H i"
  by (simp add: spec_generation_def)

lemma sweep_step:
  assumes "p < length tgt" "length data = length tgt"
  shows "(take p tgt @ drop p data)[p := tgt ! p] = take (Suc p) tgt @ drop (Suc p) data"
    and "(take p tgt @ drop p data) ! p = data ! p"
    and "length (take p tgt @ drop p data) = length data"
  using assms
  by (simp_all add: take_Suc_conv_app_nth list_update_append nth_append
        upd_conv_take_nth_drop Cons_nth_drop_Suc)

lemma updateRow_eq:
  assumes len: "length data = unat w * unat h"
    and small: "unat w * unat h < 2 ^ 31"
    and y: "y < h"
  shows "x \<le> w \<Longrightarrow>
     cells = take (unat y * unat w + unat x) (spec_generation data (unat w) (unat h))
             @ drop (unat y * unat w + unat x) data \<Longrightarrow>
     updateRow data w h y x cells
       = Some (take (unat y * unat w + unat w) (spec_generation data (unat w) (unat h))
               @ drop (unat y * unat w + unat w) data)"
proof (induction "unat w - unat x" arbitrary: x cells)
  case 0
  then have "unat x = unat w" by (simp add: word_le_nat_alt)
  then have "x = w" by (simp only: word_unat_eq_iff)
  with 0 show ?case by (subst updateRow.simps) simp
next
  case (Suc n)
  define tgt where "tgt = spec_generation data (unat w) (unat h)"
  define p where "p = unat y * unat w + unat x"
  have xw: "x < w" using Suc.hyps(2) by (simp add: word_less_nat_alt)
  have plt: "p < unat w * unat h" unfolding p_def by (rule cell_index(1) [OF small xw y])
  then have pt: "p < length tgt" and dt: "length data = length tgt"
    using len by (simp_all add: tgt_def length_spec_generation)
  have cells: "cells = take p tgt @ drop p data" using Suc.prems(2) by (simp add: tgt_def p_def)
  have lc: "length cells = length data" and same: "cells ! p = data ! p"
    unfolding cells using sweep_step(2,3) [OF pt dt] by simp_all
  have step: "updateCell data w h y x cells = Some (take (Suc p) tgt @ drop (Suc p) data)"
    using updateCell_eq [OF len small xw y p_def lc same] sweep_step(1) [OF pt dt] plt
    by (simp add: cells tgt_def nth_spec_generation)
  have ux: "unat (x + 1) = Suc (unat x)" using xw by unat_arith
  have x1: "x + 1 \<le> w" using xw by (rule inc_le)
  have n: "n = unat w - unat (x + 1)" using Suc.hyps(2) ux by simp
  have "updateRow data w h y (x + 1) (take (Suc p) tgt @ drop (Suc p) data)
       = Some (take (unat y * unat w + unat w) tgt @ drop (unat y * unat w + unat w) data)"
    unfolding tgt_def by (rule Suc.hyps(1) [OF n x1]) (simp add: p_def ux)
  then show ?case
    using xw step by (subst updateRow.simps) (simp add: tgt_def)
qed

lemma updateRows_eq:
  assumes len: "length data = unat w * unat h"
    and small: "unat w * unat h < 2 ^ 31"
  shows "y \<le> h \<Longrightarrow>
     cells = take (unat y * unat w) (spec_generation data (unat w) (unat h)) @ drop (unat y * unat w) data \<Longrightarrow>
     updateRows data w h y cells = Some (spec_generation data (unat w) (unat h))"
proof (induction "unat h - unat y" arbitrary: y cells)
  case 0
  then have "unat y = unat h" by (simp add: word_le_nat_alt)
  then have yh: "y = h" by (simp only: word_unat_eq_iff)
  have "cells = spec_generation data (unat w) (unat h)"
    using 0(3) len by (simp add: yh length_spec_generation mult.commute)
  then show ?case using yh by (subst updateRows.simps) simp
next
  case (Suc n)
  have yh: "y < h" using Suc.hyps(2) by (simp add: word_less_nat_alt)
  have row: "updateRow data w h y 0 cells
       = Some (take (unat y * unat w + unat w) (spec_generation data (unat w) (unat h))
               @ drop (unat y * unat w + unat w) data)"
    by (rule updateRow_eq [OF len small yh]) (simp_all add: Suc.prems(2))
  have uy: "unat (y + 1) = Suc (unat y)" using yh by unat_arith
  have y1: "y + 1 \<le> h" using yh by (rule inc_le)
  have n: "n = unat h - unat (y + 1)" using Suc.hyps(2) uy by simp
  have "updateRows data w h (y + 1)
          (take (unat y * unat w + unat w) (spec_generation data (unat w) (unat h))
               @ drop (unat y * unat w + unat w) data) = Some (spec_generation data (unat w) (unat h))"
    by (rule Suc.hyps(1) [OF n y1]) (unfold uy, simp add: add.commute)
  then show ?case
    using yh row by (subst updateRows.simps) simp
qed

lemma updateCells_eq:
  assumes len: "length cells = unat w * unat h"
    and small: "unat w * unat h < 2 ^ 31"
  shows "updateCells cells w h = Some (spec_generation cells (unat w) (unat h))"
  unfolding updateCells_def
  by (rule updateRows_eq [OF len small]) simp_all

lemma nth_spec_generation_xy:
  assumes small: "unat w * unat h < 2 ^ 31" and x: "x < (w :: u32)" and y: "y < (h :: u32)"
  shows "spec_generation data (unat w) (unat h) ! (unat y * unat w + unat x)
     = spec_rule (data ! (unat y * unat w + unat x))
         (of_nat (spec_neighbor_count data (unat w) (unat h) (unat x) (unat y)))"
proof -
  have "unat x < unat w" using x by (simp add: word_less_nat_alt)
  then show ?thesis
    using cell_index(1) [OF small x y] by (simp add: nth_spec_generation spec_cell_def)
qed

lemma sint_pos_unat32: "0 \<le> sint (w :: u32) \<Longrightarrow> sint w = int (unat w)"
proof -
  assume nonneg: "0 \<le> sint w"
  have "(2 :: int) ^ (LENGTH(32) - 1) \<le> 2 ^ LENGTH(32)"
    by (rule power_increasing) simp_all
  with sint_lt [of w] have lt: "sint w < 2 ^ LENGTH(32)" by (rule less_le_trans)
  have "uint w = take_bit LENGTH(32) (sint w)" by (rule uint_sint)
  also have "\<dots> = sint w" using nonneg lt by (rule take_bit_int_eq_self)
  finally show ?thesis by simp
qed

lemma spec_counted_nat:
  "spec_counted data W H (int X) (int Y)
     = (0 < X \<and> 0 < Y \<and> X < W \<and> Y < H \<and> data ! (Y * W + X) \<noteq> 0)"
  by (simp add: spec_counted_def nat_add_distrib nat_mult_distrib)

lemma isLive_in_grid:
  assumes len: "length data = unat w * unat h"
    and small: "unat w * unat h < 2 ^ 31"
    and nx: "nx < w" and ny: "ny < h"
  shows "isLive data nx ny w h
         = Some (nx \<noteq> 0 \<and> ny \<noteq> 0 \<and> data ! (unat ny * unat w + unat nx) \<noteq> 0)"
proof -
  define X Y where "X = unat nx" and "Y = unat ny"
  have pos: "0 < unat w" "0 < unat h" and lt: "X < unat w" "Y < unat h"
    using nx ny by (simp_all add: word_less_nat_alt X_def Y_def)
  have "unat w \<le> unat w * unat h" "unat h \<le> unat w * unat h" using pos by simp_all
  then have "X < 2 ^ 31" "Y < 2 ^ 31" using small lt by linarith+
  then have r: "int X < 2 ^ 31" "int Y < 2 ^ 31"
    by (metis of_nat_less_numeral_power_cancel_iff)+
  have z: "- (2 ^ 31) \<le> (0 :: int)" by simp
  have low: "- (2 ^ 31) \<le> int X" "- (2 ^ 31) \<le> int Y"
    by (rule order_trans [OF z], simp)+
  have "isLive data (word_of_int (int X)) (word_of_int (int Y)) w h
        = Some (spec_counted data (unat w) (unat h) (int X) (int Y))"
    by (rule isLive_eq [OF len small pos low(1) r(1) low(2) r(2)])
  moreover have "word_of_int (int X) = nx" "word_of_int (int Y) = ny"
    by (simp_all add: X_def Y_def)
  moreover have "0 < X \<longleftrightarrow> nx \<noteq> 0" "0 < Y \<longleftrightarrow> ny \<noteq> 0"
    by (simp_all add: X_def Y_def unat_gt_0)
  ultimately show ?thesis
    using lt by (simp add: spec_counted_nat flip: X_def Y_def)
qed

lemma isLive_defined:
  assumes len: "length data = unat w * unat h"
    and small: "unat w * unat h < 2 ^ 31"
  shows "\<exists>b. isLive data x y w h = Some b"
proof (cases "0 <s x \<and> 0 <s y \<and> x <s w \<and> y <s h")
  case False
  then show ?thesis by (auto simp add: isLive_def)
next
  case True
  then have s: "0 < sint x" "sint x < sint w" "0 < sint y" "sint y < sint h"
    by (simp_all add: word_sless_alt)
  then have n: "0 \<le> sint w" "0 \<le> sint h" by linarith+
  have w: "sint w = int (unat w)" by (rule sint_pos_unat32 [OF n(1)])
  have h: "sint h = int (unat h)" by (rule sint_pos_unat32 [OF n(2)])
  have pos: "0 < unat w" "0 < unat h" using s unfolding w h by linarith+
  have up: "sint x < 2 ^ 31" "sint y < 2 ^ 31"
    using sint_lt [of x] sint_lt [of y] by simp_all
  have low: "- (2 ^ 31) \<le> sint x" "- (2 ^ 31) \<le> sint y"
    using sint_ge [of x] sint_ge [of y] by simp_all
  have "isLive data (word_of_int (sint x)) (word_of_int (sint y)) w h
        = Some (spec_counted data (unat w) (unat h) (sint x) (sint y))"
    by (rule isLive_eq [OF len small pos low(1) up(1) low(2) up(2)])
  moreover have "word_of_int (sint x) = x" "word_of_int (sint y) = y" by simp_all
  ultimately show ?thesis by simp
qed

section \<open>Encoding and seeding\<close>

lemma shift_back: "drop_bit 24 (push_bit 24 (ucast (c :: u8) :: u32)) = ucast c"
  by (rule bit_word_eqI) (auto simp add: bit_simps dest: bit_imp_le_length)

lemma shift_low: "take_bit 24 (push_bit 24 (ucast (c :: u8) :: u32)) = 0"
  by (rule bit_word_eqI) (auto simp add: bit_simps)

lemma pixel_top: "c \<noteq> 0 \<Longrightarrow> drop_bit 24 (pixel c) = ucast c"
  unfolding pixel_def
  by (simp add: shift_back)

lemma pixel_low: "c \<noteq> 0 \<Longrightarrow> take_bit 24 (pixel c) = 0x00ff00"
  unfolding pixel_def
  by (simp add: shift_low)

lemma pixel_dead: "pixel 0 = 0"
  by (simp add: pixel_def)

lemma updatePixelData_eq:
  "length cells \<le> length pixels \<Longrightarrow>
     updatePixelData pixels cells = Some (map pixel cells @ drop (length cells) pixels)"
  by (induction pixels cells rule: updatePixelData.induct) simp_all

lemma updatePixelData_short:
  "length pixels < length cells \<Longrightarrow> updatePixelData pixels cells = None"
  by (induction pixels cells rule: updatePixelData.induct) simp_all

lemma dist_values_length: "length dist_values = 101"
  by (simp add: dist_values_def)

lemma dist_values_alive: "length (filter (\<lambda>d. seed d = 1) dist_values) = 15"
  by code_simp

lemma dist_values_range: "set dist_values = {d. d \<le> 100}"
proof -
  have "d \<in> set dist_values \<longleftrightarrow> d \<le> 100" for d
  proof
    assume "d \<in> set dist_values"
    then obtain n where n: "n < 101" "d = of_nat n" by (auto simp add: dist_values_def)
    then have "unat d = n" by (simp add: unat_of_nat)
    then show "d \<le> 100" using n by (simp add: word_le_nat_alt)
  next
    assume "d \<le> 100"
    then have "unat d < 101" by (simp add: word_le_nat_alt)
    moreover have "d = of_nat (unat d)" by simp
    ultimately show "d \<in> set dist_values"
      unfolding dist_values_def by (metis (no_types, lifting) atLeast0LessThan image_eqI lessThan_iff set_map set_upt One_nat_def Suc_eq_plus1 add_Suc_right numeral_Bit0 numeral_Bit1 numeral_One eval_nat_numeral)
  qed
  then show ?thesis by auto
qed

lemma vector_size_eq:
  assumes "0 \<le> sint width * sint height" "sint width * sint height < 2 ^ 31"
  shows "vector_size width height msg = Inr (nat (sint width * sint height))"
proof -
  have "sint (width * height) = signed_take_bit (LENGTH(32) - 1) (sint width * sint height)"
    by (rule sint_word_mult)
  also have "\<dots> = sint width * sint height"
    using assms by (simp add: signed_take_bit_int_eq_self)
  finally show ?thesis using assms by (simp add: vector_size_def)
qed

section \<open>Generations of a surviving cell\<close>

lemma unat_spec_rule_survive:
  assumes "age \<noteq> 0" and "count = 2 \<or> count = 3"
  shows "unat (spec_rule age count) = min 255 (unat age + 1)"
proof (cases "age = 255")
  case True
  then show ?thesis using assms(2) by (auto simp add: spec_rule_def)
next
  case False
  then have "age < 255" by (simp add: u8_max)
  then have lt: "unat age < 255" by (simp add: word_less_nat_alt)
  then have "unat (age + 1) = unat age + 1" by (simp add: unat_word_ariths)
  then show ?thesis using assms False lt by (auto simp add: spec_rule_def)
qed

lemma generations_Suc:
  "updateCells cells w h = Some cells' \<Longrightarrow> generations (Suc k) cells w h = generations k cells' w h"
  by simp

lemma survivor_age:
  assumes small: "unat w * unat h < 2 ^ 31" and x: "x < w" and y: "y < h"
  shows "length cells = unat w * unat h \<Longrightarrow>
     cells ! (unat y * unat w + unat x) \<noteq> 0 \<Longrightarrow>
     (\<forall>k < n. \<exists>grid count. generations k cells w h = Some grid
          \<and> neighbors grid x y w h = Some count \<and> (count = 2 \<or> count = 3)) \<Longrightarrow>
     \<exists>grid. generations n cells w h = Some grid
        \<and> unat (grid ! (unat y * unat w + unat x))
            = min 255 (unat (cells ! (unat y * unat w + unat x)) + n)"
proof (induction n arbitrary: cells)
  case 0
  have "unat (cells ! (unat y * unat w + unat x)) < 2 ^ LENGTH(8)" by (rule unsigned_less)
  then show ?case by simp
next
  case (Suc n)
  define p where "p = unat y * unat w + unat x"
  define succ where "succ = spec_generation cells (unat w) (unat h)"
  have step: "updateCells cells w h = Some succ"
    unfolding succ_def by (rule updateCells_eq [OF Suc.prems(1) small])
  have len: "length succ = unat w * unat h"
    by (simp add: succ_def length_spec_generation)
  from Suc.prems(3) have "\<exists>grid count. generations 0 cells w h = Some grid
          \<and> neighbors grid x y w h = Some count \<and> (count = 2 \<or> count = 3)"
    by blast
  then obtain count where c: "neighbors cells x y w h = Some count" "count = 2 \<or> count = 3"
    by auto
  have "succ ! p = spec_rule (cells ! p)
          (of_nat (spec_neighbor_count cells (unat w) (unat h) (unat x) (unat y)))"
    unfolding succ_def p_def by (rule nth_spec_generation_xy [OF small x y])
  also have "of_nat (spec_neighbor_count cells (unat w) (unat h) (unat x) (unat y)) = count"
    using c(1) neighbors_eq [OF Suc.prems(1) small x y] by simp
  finally have np: "succ ! p = spec_rule (cells ! p) count" .
  have age: "unat (succ ! p) = min 255 (unat (cells ! p) + 1)"
    unfolding np using Suc.prems(2) c(2) unfolding p_def by (rule unat_spec_rule_survive)
  then have alive: "succ ! p \<noteq> 0" by (auto simp add: unat_eq_0 [symmetric] simp del: unat_eq_0)
  have later: "\<forall>k < n. \<exists>grid count. generations k succ w h = Some grid
          \<and> neighbors grid x y w h = Some count \<and> (count = 2 \<or> count = 3)"
  proof (intro allI impI)
    fix k assume "k < n"
    then have "Suc k < Suc n" by simp
    with Suc.prems(3) have "\<exists>grid count. generations (Suc k) cells w h = Some grid
          \<and> neighbors grid x y w h = Some count \<and> (count = 2 \<or> count = 3)"
      by blast
    then show "\<exists>grid count. generations k succ w h = Some grid
          \<and> neighbors grid x y w h = Some count \<and> (count = 2 \<or> count = 3)"
      by (simp only: generations_Suc [OF step])
  qed
  from Suc.IH [OF len alive [unfolded p_def] later]
  obtain grid where g: "generations n succ w h = Some grid"
    "unat (grid ! p) = min 255 (unat (succ ! p) + n)"
    unfolding p_def by blast
  have "generations (Suc n) cells w h = Some grid"
    using g(1) by (simp only: generations_Suc [OF step])
  moreover have "unat (grid ! p) = min 255 (unat (cells ! p) + Suc n)"
    using g(2) age by simp
  ultimately show ?case unfolding p_def by blast
qed

lemma block_3x3_step:
  assumes "age \<noteq> 0"
  shows "updateCells (block_3x3 age) 3 3 = Some (block_3x3 (if age = 255 then 255 else age + 1))"
proof -
  have "length (block_3x3 age) = unat (3 :: u32) * unat (3 :: u32)"
    and "unat (3 :: u32) * unat (3 :: u32) < 2 ^ 31"
    by (simp_all add: block_3x3_def)
  then have "updateCells (block_3x3 age) 3 3 = Some (spec_generation (block_3x3 age) 3 3)"
    using updateCells_eq [of "block_3x3 age" 3 3] by simp
  also have "spec_generation (block_3x3 age) 3 3 = block_3x3 (if age = 255 then 255 else age + 1)"
    using assms
    by (simp add: spec_generation_def spec_cell_def spec_neighbor_count_def moore_def
        spec_counted_def spec_rule_def block_3x3_def upt_rec [of _ "numeral n" for n])
  finally show ?thesis .
qed

lemma block_3x3_neighbors:
  assumes "age \<noteq> 0"
  shows "neighbors (block_3x3 age) 1 1 3 3 = Some 3"
proof -
  have len: "length (block_3x3 age) = unat (3 :: u32) * unat (3 :: u32)"
    and small: "unat (3 :: u32) * unat (3 :: u32) < 2 ^ 31" and xy: "(1 :: u32) < 3"
    by (simp_all add: block_3x3_def)
  have "neighbors (block_3x3 age) 1 1 3 3
      = Some (of_nat (spec_neighbor_count (block_3x3 age) (unat (3 :: u32)) (unat (3 :: u32))
                (unat (1 :: u32)) (unat (1 :: u32))))"
    by (rule neighbors_eq [OF len small xy xy])
  then show ?thesis
    using assms
    by (simp add: spec_neighbor_count_def moore_def spec_counted_def block_3x3_def)
qed

lemma block_3x3_generations:
  "age \<noteq> 0 \<Longrightarrow> \<exists>b. b \<noteq> 0 \<and> generations k (block_3x3 age) 3 3 = Some (block_3x3 b)"
proof (induction k arbitrary: age)
  case 0
  then show ?case by auto
next
  case (Suc k)
  have "age = - 1" if "age + 1 = 0"
    using that by (simp add: eq_neg_iff_add_eq_0)
  then have "(if age = 255 then 255 else age + 1) \<noteq> 0"
    by auto
  from Suc.IH [OF this] show ?case
    by (simp add: block_3x3_step [OF Suc.prems])
qed

section \<open>The loop and the return code of main\<close>

lemma nth_four:
  "(a # b # c # d # xs) ! (4 * Suc j) = xs ! (4 * j)"
  "(a # b # c # d # xs) ! (4 * Suc j + 1) = xs ! (4 * j + 1)"
  "(a # b # c # d # xs) ! (4 * Suc j + 2) = xs ! (4 * j + 2)"
  "(a # b # c # d # xs) ! (4 * Suc j + 3) = xs ! (4 * j + 3)"
  by (simp_all add: numeral_eq_Suc)

lemma frame_loop_steps:
  assumes small: "unat w * unat h < 2 ^ 31"
  shows "length cells = unat w * unat h \<Longrightarrow> length pixels = length cells \<Longrightarrow>
     frame_loop w h pixels cells polls = (steps, out) \<Longrightarrow>
     \<exists>n \<le> length polls. length steps = 4 * n
        \<and> (\<forall>k < n. \<exists>grid grid'. generations k cells w h = Some grid
               \<and> updateCells grid w h = Some grid'
               \<and> steps ! (4 * k) = Encoded (map pixel grid)
               \<and> steps ! (4 * k + 1) = Advanced grid'
               \<and> steps ! (4 * k + 2) = Presented (map pixel grid)
               \<and> steps ! (4 * k + 3) = Drained (polls ! k))"
proof (induction polls arbitrary: pixels cells steps out)
  case Nil
  then show ?case by simp
next
  case (Cons events later)
  define cells' where "cells' = spec_generation cells (unat w) (unat h)"
  define pixels' where "pixels' = map pixel cells"
  have enc: "updatePixelData pixels cells = Some pixels'"
    using Cons.prems(2) by (simp add: updatePixelData_eq pixels'_def)
  have adv: "updateCells cells w h = Some cells'"
    unfolding cells'_def by (rule updateCells_eq [OF Cons.prems(1) small])
  have len': "length cells' = unat w * unat h" "length pixels' = length cells'"
    using Cons.prems(1) by (simp_all add: cells'_def pixels'_def length_spec_generation)
  let ?first = "\<lambda>steps. steps ! (4 * 0) = Encoded (map pixel cells)
               \<and> steps ! (4 * 0 + 1) = Advanced cells'
               \<and> steps ! (4 * 0 + 2) = Presented (map pixel cells)
               \<and> steps ! (4 * 0 + 3) = Drained ((events # later) ! 0)"
  show ?case
  proof (cases "poll_events events True")
    case False
    then have s: "steps = [Encoded pixels', Advanced cells', Presented pixels', Drained events]"
      using Cons.prems(3) enc adv by simp
    have "?first steps" unfolding s pixels'_def by simp
    then have "\<forall>k < 1. \<exists>grid grid'. generations k cells w h = Some grid
               \<and> updateCells grid w h = Some grid'
               \<and> steps ! (4 * k) = Encoded (map pixel grid)
               \<and> steps ! (4 * k + 1) = Advanced grid'
               \<and> steps ! (4 * k + 2) = Presented (map pixel grid)
               \<and> steps ! (4 * k + 3) = Drained ((events # later) ! k)"
      using adv by auto
    moreover have "length steps = 4 * 1" "1 \<le> length (events # later)" by (simp_all add: s)
    ultimately show ?thesis by blast
  next
    case True
    obtain rest out' where r: "frame_loop w h pixels' cells' later = (rest, out')"
      by (cases "frame_loop w h pixels' cells' later") auto
    have s: "steps = Encoded pixels' # Advanced cells' # Presented pixels' # Drained events # rest"
      using Cons.prems(3) enc adv True r by simp
    from Cons.IH [OF len' r] obtain n where n: "n \<le> length later" "length rest = 4 * n"
      and ticks: "\<forall>k < n. \<exists>grid grid'. generations k cells' w h = Some grid
               \<and> updateCells grid w h = Some grid'
               \<and> rest ! (4 * k) = Encoded (map pixel grid)
               \<and> rest ! (4 * k + 1) = Advanced grid'
               \<and> rest ! (4 * k + 2) = Presented (map pixel grid)
               \<and> rest ! (4 * k + 3) = Drained (later ! k)"
      by blast
    have "\<exists>grid grid'. generations k cells w h = Some grid
               \<and> updateCells grid w h = Some grid'
               \<and> steps ! (4 * k) = Encoded (map pixel grid)
               \<and> steps ! (4 * k + 1) = Advanced grid'
               \<and> steps ! (4 * k + 2) = Presented (map pixel grid)
               \<and> steps ! (4 * k + 3) = Drained ((events # later) ! k)" if "k < Suc n" for k
    proof (cases k)
      case 0
      have "?first steps" unfolding s pixels'_def by simp
      then show ?thesis using adv 0 by auto
    next
      case (Suc j)
      then have "j < n" using that by simp
      with ticks obtain grid grid' where "generations j cells' w h = Some grid"
        "updateCells grid w h = Some grid'"
        "rest ! (4 * j) = Encoded (map pixel grid)"
        "rest ! (4 * j + 1) = Advanced grid'"
        "rest ! (4 * j + 2) = Presented (map pixel grid)"
        "rest ! (4 * j + 3) = Drained (later ! j)"
        by blast
      then show ?thesis
        unfolding Suc s nth_four using adv by simp
    qed
    moreover have "length steps = 4 * Suc n" "Suc n \<le> length (events # later)"
      using n by (simp_all add: s)
    ultimately show ?thesis by blast
  qed
qed

lemma frame_loop_block_3x3:
  "frame_loop 3 3 [9, 9, 9, 9, 9, 9, 9, 9, 9] [0, 0, 0, 0, 1, 1, 0, 1, 1] [[SDL_other], [SDL_QUIT]]
   = ([Encoded [0, 0, 0, 0, 0x0100ff00, 0x0100ff00, 0, 0x0100ff00, 0x0100ff00],
       Advanced [0, 0, 0, 0, 2, 2, 0, 2, 2],
       Presented [0, 0, 0, 0, 0x0100ff00, 0x0100ff00, 0, 0x0100ff00, 0x0100ff00],
       Drained [SDL_other],
       Encoded [0, 0, 0, 0, 0x0200ff00, 0x0200ff00, 0, 0x0200ff00, 0x0200ff00],
       Advanced [0, 0, 0, 0, 3, 3, 0, 3, 3],
       Presented [0, 0, 0, 0, 0x0200ff00, 0x0200ff00, 0, 0x0200ff00, 0x0200ff00],
       Drained [SDL_QUIT]], Return 0)"
  by code_simp

lemma poll_events_iff:
  "poll_events events run
     \<longleftrightarrow> run \<and> SDL_QUIT \<notin> set events \<and> SDL_KEYDOWN SDLK_ESCAPE \<notin> set events"
  by (induction events run rule: poll_events.induct) auto

lemma frame_loop_returns_0:
  assumes small: "unat w * unat h < 2 ^ 31"
  shows "length cells = unat w * unat h \<Longrightarrow> length pixels = length cells \<Longrightarrow>
     \<exists>events \<in> set polls. SDL_QUIT \<in> set events \<or> SDL_KEYDOWN SDLK_ESCAPE \<in> set events \<Longrightarrow>
     snd (frame_loop w h pixels cells polls) = Return 0"
proof (induction polls arbitrary: pixels cells)
  case Nil
  then show ?case by simp
next
  case (Cons events later)
  define cells' where "cells' = spec_generation cells (unat w) (unat h)"
  define pixels' where "pixels' = map pixel cells"
  have enc: "updatePixelData pixels cells = Some pixels'"
    using Cons.prems(2) by (simp add: updatePixelData_eq pixels'_def)
  have adv: "updateCells cells w h = Some cells'"
    unfolding cells'_def by (rule updateCells_eq [OF Cons.prems(1) small])
  have len': "length cells' = unat w * unat h" "length pixels' = length cells'"
    using Cons.prems(1) by (simp_all add: cells'_def pixels'_def length_spec_generation)
  show ?case
  proof (cases "poll_events events True")
    case False
    then show ?thesis using enc adv by simp
  next
    case True
    then have "\<exists>events \<in> set later. SDL_QUIT \<in> set events \<or> SDL_KEYDOWN SDLK_ESCAPE \<in> set events"
      using Cons.prems(3) by (auto simp add: poll_events_iff)
    from Cons.IH [OF len' this] show ?thesis
      using enc adv True by (auto split: prod.splits)
  qed
qed

lemma sdiv_2_nonneg: "0 \<le> k \<Longrightarrow> k sdiv 2 = k div (2 :: int)"
  by (cases "k = 0") (simp_all add: signed_divide_int_def)

lemma field_size:
  fixes cw ch :: u32
  defines "a \<equiv> sint cw sdiv 2" and "b \<equiv> sint ch sdiv 2"
  assumes "0 \<le> sint cw" and "0 \<le> sint ch" and "a * b < 2 ^ 31"
  shows "vector_size (word_of_int a) (word_of_int b) msg
           = Inr (unat (word_of_int a :: u32) * unat (word_of_int b :: u32))"
    and "unat (word_of_int a :: u32) * unat (word_of_int b :: u32) < 2 ^ 31"
proof -
  have a0: "0 \<le> a" and b0: "0 \<le> b"
    using assms(3,4) by (simp_all add: a_def b_def sdiv_2_nonneg)
  have "a \<le> sint cw" "b \<le> sint ch"
    using assms(3,4) by (simp_all add: a_def b_def sdiv_2_nonneg)
  moreover have "sint cw < 2 ^ 31" "sint ch < 2 ^ 31"
    using sint_lt [of cw] sint_lt [of ch] by simp_all
  ultimately have a31: "a < 2 ^ 31" and b31: "b < 2 ^ 31" by linarith+
  have low: "- (2 ^ 31) \<le> (0 :: int)" by simp
  have sa: "sint (word_of_int a :: u32) = a"
    by (rule sint_wi32 [OF order_trans [OF low a0] a31])
  have sb: "sint (word_of_int b :: u32) = b"
    by (rule sint_wi32 [OF order_trans [OF low b0] b31])
  have ua: "int (unat (word_of_int a :: u32)) = a"
    using sint_pos_unat32 [of "word_of_int a"] a0 unfolding sa by simp
  have ub: "int (unat (word_of_int b :: u32)) = b"
    using sint_pos_unat32 [of "word_of_int b"] b0 unfolding sb by simp
  have prod: "int (unat (word_of_int a :: u32) * unat (word_of_int b :: u32)) = a * b"
    unfolding of_nat_mult ua ub ..
  have "vector_size (word_of_int a) (word_of_int b) msg
      = Inr (nat (sint (word_of_int a :: u32) * sint (word_of_int b :: u32)))"
    by (rule vector_size_eq) (simp_all only: sa sb assms(5) mult_nonneg_nonneg [OF a0 b0])
  also have "nat (sint (word_of_int a :: u32) * sint (word_of_int b :: u32))
      = unat (word_of_int a :: u32) * unat (word_of_int b :: u32)"
    unfolding sa sb prod [symmetric] by (rule nat_int)
  finally show "vector_size (word_of_int a) (word_of_int b) msg
           = Inr (unat (word_of_int a :: u32) * unat (word_of_int b :: u32))" .
  have "int (unat (word_of_int a :: u32) * unat (word_of_int b :: u32)) < 2 ^ 31"
    unfolding prod by (rule assms(5))
  then show "unat (word_of_int a :: u32) * unat (word_of_int b :: u32) < 2 ^ 31"
    by (metis of_nat_less_numeral_power_cancel_iff)
qed

lemma main_returns_1:
  assumes "SDL_Init p \<noteq> 0 \<or> SDL_GetCurrentDisplayMode p \<noteq> 0
           \<or> \<not> create_window p \<or> \<not> create_renderer p \<or> \<not> create_texture p"
  shows "main p = ([], [exception_what p], Return 1)"
  using assms by (auto simp add: main_def handler_def catch_by_value_def Let_def)

lemma main_returns_0:
  assumes ok: "SDL_Init p = 0" "SDL_GetCurrentDisplayMode p = 0"
      "create_window p" "create_renderer p" "create_texture p"
    and size: "0 \<le> sint (current_w p)" "0 \<le> sint (current_h p)"
      "(sint (current_w p) sdiv 2) * (sint (current_h p) sdiv 2) < 2 ^ 31"
    and quit: "\<exists>events \<in> set (SDL_PollEvent p).
      SDL_QUIT \<in> set events \<or> SDL_KEYDOWN SDLK_ESCAPE \<in> set events"
  shows "snd (main p) = ([], Return 0)"
proof -
  define fw fh :: u32 where "fw = word_of_int (sint (current_w p) sdiv 2)"
    and "fh = word_of_int (sint (current_h p) sdiv 2)"
  have vs: "vector_size fw fh msg = Inr (unat fw * unat fh)" for msg
    unfolding fw_def fh_def by (rule field_size(1) [OF size])
  have small: "unat fw * unat fh < 2 ^ 31"
    unfolding fw_def fh_def by (rule field_size(2) [OF size])
  define pixels where "pixels = replicate (unat fw * unat fh) (0 :: u32)"
  define cells where "cells = map (\<lambda>i. seed (dist p i)) [0..<unat fw * unat fh]"
  have cp: "createPixelData fw fh (length_error_what p) = Inr pixels"
    by (simp add: createPixelData_def vs pixels_def)
  have cc: "createCells fw fh (length_error_what p) (dist p) = Inr cells"
    by (simp add: createCells_def vs cells_def)
  have "snd (frame_loop fw fh pixels cells (SDL_PollEvent p)) = Return 0"
    by (rule frame_loop_returns_0 [OF small _ _ quit]) (simp_all add: pixels_def cells_def)
  then show ?thesis
    using ok cp cc by (auto simp add: main_def Let_def split: prod.splits simp flip: fw_def fh_def)
qed

section \<open>The memory around the buffers is not read\<close>

lemma isLive_mem_sim:
  "isLive data x y w h = Some b \<Longrightarrow> isLive_mem around data x y w h = b"
  by (auto simp add: isLive_def isLive_mem_def rd_def rd_mem_def split: if_splits)

lemma add_live_sim:
  "add_live c (isLive data x y w h) = Some r \<Longrightarrow>
     \<exists>c'. c = Some c' \<and> r = c' + of_bool (isLive_mem around data x y w h)"
  by (auto simp add: add_live_def isLive_mem_sim split: option.splits)

lemma neighbors_mem_sim:
  "neighbors data x y w h = Some c \<Longrightarrow> neighbors_mem around data x y w h = c"
  unfolding neighbors_def neighbors_mem_def
  apply (drule add_live_sim [where around = around], elim exE conjE)+
  apply simp
  done

lemma rd_mem_rd:
  "rd_mem around xs i = (case rd xs i of None \<Rightarrow> around i | Some v \<Rightarrow> v)"
  by (simp add: rd_def rd_mem_def)

lemma wr_mem_wr:
  "wr_mem around xs i v = (case wr xs i v of None \<Rightarrow> (xs, around(i := v)) | Some r \<Rightarrow> (r, around))"
  by (simp add: wr_def wr_mem_def)

lemma updateCell_mem_sim:
  assumes "updateCell data w h y x cells = Some cells'"
  shows "updateCell_mem around data w h y x (cells, beyond) = (cells', beyond)"
proof -
  from assms obtain c d where c: "neighbors data x y w h = Some c"
    and d: "rd data (uint (y * w + x)) = Some d"
    by (auto simp add: updateCell_def Let_def split: option.splits)
  show ?thesis
    using assms
    unfolding updateCell_mem_def updateCell_def Let_def neighbors_mem_sim [OF c] c
      rd_mem_rd wr_mem_wr d option.case prod.case
    by (auto split: if_splits option.splits)
qed

lemma updateRow_mem_sim:
  "updateRow data w h y x cells = Some out \<Longrightarrow>
     updateRow_mem around data w h y x (cells, beyond) = (out, beyond)"
proof (induction data w h y x cells rule: updateRow.induct)
  case (1 data w h y x cells)
  note [simp del] = updateRow.simps updateRow_mem.simps
  note unfold = updateRow.simps [of data w h y x cells]
    updateRow_mem.simps [of around data w h y x "(cells, beyond)"]
  show ?case
  proof (cases "x < w")
    case False
    with "1.prems" show ?thesis
      by (subst updateRow_mem.simps) (simp add: unfold(1))
  next
    case True
    with "1.prems" obtain cells' where c: "updateCell data w h y x cells = Some cells'"
      and r: "updateRow data w h y (x + 1) cells' = Some out"
      by (auto simp add: unfold(1) split: option.splits)
    from "1.IH" [OF True c r] show ?thesis
      using True by (simp add: unfold(2) updateCell_mem_sim [OF c])
  qed
qed

lemma updateRows_mem_sim:
  "updateRows data w h y cells = Some out \<Longrightarrow>
     updateRows_mem around data w h y (cells, beyond) = (out, beyond)"
proof (induction data w h y cells rule: updateRows.induct)
  case (1 data w h y cells)
  note [simp del] = updateRow.simps updateRow_mem.simps updateRows.simps updateRows_mem.simps
  note unfold = updateRows.simps [of data w h y cells]
    updateRows_mem.simps [of around data w h y "(cells, beyond)"]
  show ?case
  proof (cases "y < h")
    case False
    with "1.prems" show ?thesis
      by (subst updateRows_mem.simps) (simp add: unfold(1))
  next
    case True
    with "1.prems" obtain cells' where c: "updateRow data w h y 0 cells = Some cells'"
      and r: "updateRows data w h (y + 1) cells' = Some out"
      by (auto simp add: unfold(1) split: option.splits)
    from "1.IH" [OF True c r] show ?thesis
      using True by (simp add: unfold(2) updateRow_mem_sim [OF c])
  qed
qed

lemma updateCells_mem_sim:
  "updateCells cells w h = Some out \<Longrightarrow> updateCells_mem around beyond cells w h = (out, beyond)"
  unfolding updateCells_def updateCells_mem_def by (rule updateRows_mem_sim)

lemma updateCells_mem_short_buffer:
  "fst (updateCells_mem (\<lambda>i. 1) (\<lambda>i. 0) [0, 0, 0, 0, 1] 3 3) = [0, 0, 0, 0, 2]
   \<and> fst (updateCells_mem (\<lambda>i. 0) (\<lambda>i. 0) [0, 0, 0, 0, 1] 3 3) = [0, 0, 0, 0, 0]"
  by code_simp

lemma createCells_cong:
  assumes "\<forall>i < nat (sint (width * height)). seed (draws1 i) = seed (draws2 i)"
  shows "createCells width height msg draws1 = createCells width height msg draws2"
  using assms by (simp add: createCells_def vector_size_def)

section \<open>The update rule\<close>

text \<open>
  Claim C1. For a grid of \<open>w\<close> by \<open>h\<close> cells (fewer than \<open>2 ^ 31\<close>, so that the
  \<^verbatim>\<open>int\<close> index arithmetic of the source is defined) and every cell \<open>(x, y)\<close> of
  it, one call of \<^verbatim>\<open>updateCells\<close> returns a grid of the same length whose cell at
  \<open>y * w + x\<close> is the rule of the specification applied to the cell's old age and to
  the neighbour count that \<^verbatim>\<open>neighbors\<close> takes from the grid as it was before the
  call: an alive cell with fewer than 2 or more than 3 neighbours becomes 0, an alive
  cell with 2 or 3 neighbours has its age raised by 1 unless it is 255 and then stays
  255, a dead cell with exactly 3 neighbours becomes 1, and any other cell keeps its
  value.
\<close>

theorem updateCells_rule:
  assumes "length cells = unat w * unat h" and "unat w * unat h < 2 ^ 31"
    and "x < w" and "y < h"
  shows "\<exists>out count. updateCells cells w h = Some out \<and> length out = length cells
           \<and> neighbors cells x y w h = Some count
           \<and> out ! (unat y * unat w + unat x)
               = spec_rule (cells ! (unat y * unat w + unat x)) count"
  using assms
  by (simp add: updateCells_eq neighbors_eq length_spec_generation nth_spec_generation_xy)

theorem updateCells_rule_witness:
  "\<exists>out count. updateCells [0, 0, 0, 0, 7, 255, 0, 1, 0] 3 3 = Some out
      \<and> length out = length [0, 0, 0, 0, 7, 255, 0, 1, 0 :: u8]
      \<and> neighbors [0, 0, 0, 0, 7, 255, 0, 1, 0] 1 1 3 3 = Some count
      \<and> out ! (unat (1 :: u32) * unat (3 :: u32) + unat (1 :: u32))
          = spec_rule ([0, 0, 0, 0, 7, 255, 0, 1, 0] ! (unat (1 :: u32) * unat (3 :: u32) + unat (1 :: u32))) count"
  using updateCells_rule [where cells = "[0, 0, 0, 0, 7, 255, 0, 1, 0]" and w = 3 and h = 3 and x = 1 and y = 1]
  by simp

section \<open>The boundary of the neighbour count\<close>

text \<open>
  Claim C2. In a grid of \<open>w\<close> by \<open>h\<close> cells, \<open>w, h \<ge> 1\<close>, the probe
  \<^verbatim>\<open>isLive\<close> at a position \<open>(nx, ny)\<close> of the grid answers that the cell counts
  exactly when \<open>nx\<close> is not 0, \<open>ny\<close> is not 0 and the cell is alive: a cell of the top
  row or of the leftmost column is never counted, and a cell at \<open>nx = w - 1\<close> or
  \<open>ny = h - 1\<close> is counted when it is alive, as any other cell off the two excluded
  edges. The count \<^verbatim>\<open>neighbors\<close> returns for a cell is the number of its eight Moore
  neighbours that lie strictly inside the lower bound \<open>(0, 0)\<close> and the upper bound
  \<open>(w, h)\<close> and are alive.
\<close>

theorem neighbors_boundary:
  assumes "length data = unat w * unat h" and "unat w * unat h < 2 ^ 31"
  shows "(\<forall>nx ny. nx < w \<and> ny < h \<longrightarrow>
            isLive data nx ny w h
              = Some (nx \<noteq> 0 \<and> ny \<noteq> 0 \<and> data ! (unat ny * unat w + unat nx) \<noteq> 0))
       \<and> (\<forall>x y. x < w \<and> y < h \<longrightarrow>
            neighbors data x y w h
              = Some (of_nat (spec_neighbor_count data (unat w) (unat h) (unat x) (unat y))))"
  using assms by (simp add: isLive_in_grid neighbors_eq)

theorem neighbors_boundary_witness:
  "isLive [1, 1, 1, 1, 1, 1, 1, 1, 1] 1 0 3 3 = Some False
   \<and> isLive [1, 1, 1, 1, 1, 1, 1, 1, 1] 0 1 3 3 = Some False
   \<and> isLive [1, 1, 1, 1, 1, 1, 1, 1, 1] 2 1 3 3 = Some True
   \<and> isLive [1, 1, 1, 1, 1, 1, 1, 1, 1] 1 2 3 3 = Some True
   \<and> neighbors [1, 1, 1, 1, 1, 1, 1, 1, 1] 1 1 3 3 = Some 3"
proof -
  have len: "length [1, 1, 1, 1, 1, 1, 1, 1, 1 :: u8] = unat (3 :: u32) * unat (3 :: u32)"
    and small: "unat (3 :: u32) * unat (3 :: u32) < 2 ^ 31"
    by simp_all
  note T = neighbors_boundary [OF len small]
  note L = T [THEN conjunct1, rule_format] and N = T [THEN conjunct2, rule_format]
  show ?thesis
    using L [of 1 0] L [of 0 1] L [of 2 1] L [of 1 2] N [of 1 1]
    by (simp add: spec_neighbor_count_def moore_def spec_counted_def)
qed

section \<open>Indices stay inside the grid\<close>

text \<open>
  Claim C7. In the model an access outside a buffer is the result \<open>None\<close>. For a grid
  of \<open>w * h\<close> cells and any queried coordinates, among them \<open>-1\<close>, \<open>w\<close> and \<open>h\<close>,
  \<^verbatim>\<open>isLive\<close> returns a value; where the guard fails it returns false whatever the
  buffer is, even an empty one, so it reads nothing; where the guard holds the index
  \<open>y * w + x\<close> it reads lies in \<open>[0, w * h)\<close>. The index \<^verbatim>\<open>updateCells\<close> computes
  for a cell of the grid lies in \<open>[0, w * h)\<close>, and \<^verbatim>\<open>updateCells\<close> returns a grid,
  of the length it was given.
\<close>

theorem updateCells_in_bounds:
  assumes "length cells = unat w * unat h" and "unat w * unat h < 2 ^ 31"
  shows "(\<forall>x y. (\<exists>b. isLive cells x y w h = Some b)
            \<and> (\<not> (0 <s x \<and> 0 <s y \<and> x <s w \<and> y <s h) \<longrightarrow>
                  (\<forall>buffer. isLive buffer x y w h = Some False))
            \<and> (0 <s x \<and> 0 <s y \<and> x <s w \<and> y <s h \<longrightarrow>
                  0 \<le> sint (y * w + x) \<and> sint (y * w + x) < int (length cells)))
       \<and> (\<forall>x y. x < w \<and> y < h \<longrightarrow> uint (y * w + x) < int (length cells))
       \<and> (\<exists>out. updateCells cells w h = Some out \<and> length out = length cells)"
proof (intro conjI allI impI)
  fix x y
  show d: "\<exists>b. isLive cells x y w h = Some b" by (rule isLive_defined [OF assms])
  show "isLive buffer x y w h = Some False" if "\<not> (0 <s x \<and> 0 <s y \<and> x <s w \<and> y <s h)" for buffer
    using that by (auto simp add: isLive_def)
  assume "0 <s x \<and> 0 <s y \<and> x <s w \<and> y <s h"
  with d have "rd cells (sint (y * w + x)) \<noteq> None" by (auto simp add: isLive_def)
  then show "0 \<le> sint (y * w + x)" "sint (y * w + x) < int (length cells)"
    by (simp_all add: rd_def split: if_splits)
next
  fix x y assume "x < w \<and> y < h"
  then show "uint (y * w + x) < int (length cells)"
    using cell_index [OF assms(2), of x y] assms(1) by (simp only: of_nat_less_iff)
next
  show "\<exists>out. updateCells cells w h = Some out \<and> length out = length cells"
    using assms by (simp add: updateCells_eq length_spec_generation)
qed

theorem updateCells_in_bounds_witness:
  "isLive [0, 0, 0, 0, 7, 255, 0, 1, 0] (- 1) 3 3 3 = Some False
   \<and> isLive [] 3 (- 1) 3 3 = Some False
   \<and> sint (2 * 3 + 2 :: u32) < int (length [0, 0, 0, 0, 7, 255, 0, 1, 0 :: u8])
   \<and> uint (2 * 3 + 2 :: u32) < int (length [0, 0, 0, 0, 7, 255, 0, 1, 0 :: u8])
   \<and> (\<exists>out. updateCells [0, 0, 0, 0, 7, 255, 0, 1, 0] 3 3 = Some out
          \<and> length out = length [0, 0, 0, 0, 7, 255, 0, 1, 0 :: u8])"
proof -
  have len: "length [0, 0, 0, 0, 7, 255, 0, 1, 0 :: u8] = unat (3 :: u32) * unat (3 :: u32)"
    and small: "unat (3 :: u32) * unat (3 :: u32) < 2 ^ 31"
    by simp_all
  note T = updateCells_in_bounds [OF len small]
  note A = T [THEN conjunct1, rule_format] and B = T [THEN conjunct2, THEN conjunct1, rule_format]
    and C = T [THEN conjunct2, THEN conjunct2]
  have g: "\<not> (0 <s (- 1 :: u32) \<and> 0 <s (3 :: u32) \<and> (- 1 :: u32) <s 3 \<and> (3 :: u32) <s 3)"
     "\<not> (0 <s (3 :: u32) \<and> 0 <s (- 1 :: u32) \<and> (3 :: u32) <s 3 \<and> (- 1 :: u32) <s 3)"
     "0 <s (2 :: u32) \<and> 0 <s (2 :: u32) \<and> (2 :: u32) <s 3 \<and> (2 :: u32) <s 3"
    by (simp_all add: word_sless_alt)
  show ?thesis
    using A [of "- 1" 3, THEN conjunct2, THEN conjunct1, rule_format, OF g(1)]
      A [of 3 "- 1", THEN conjunct2, THEN conjunct1, rule_format, OF g(2)]
      A [of 2 2, THEN conjunct2, THEN conjunct2, rule_format, OF g(3)]
      B [of 2 2] C
    by simp
qed

section \<open>Saturation of the age\<close>

text \<open>
  Claim C5. A cell that is alive and has 2 or 3 counted neighbours at each of 260
  consecutive generations is alive at every one of them, its age after \<open>k\<close>
  generations being its first age plus \<open>k\<close>, capped at 255; so it never returns to 0,
  and after the 260 generations its age is exactly 255.
\<close>

theorem age_saturates:
  assumes "length cells = unat w * unat h" and "unat w * unat h < 2 ^ 31"
    and "x < w" and "y < h"
    and "cells ! (unat y * unat w + unat x) \<noteq> 0"
    and "\<forall>k < 260. \<exists>grid count. generations k cells w h = Some grid
          \<and> neighbors grid x y w h = Some count \<and> (count = 2 \<or> count = 3)"
  shows "(\<forall>k \<le> 260. \<exists>grid. generations k cells w h = Some grid
            \<and> unat (grid ! (unat y * unat w + unat x))
                = min 255 (unat (cells ! (unat y * unat w + unat x)) + k))
       \<and> (\<exists>grid. generations 260 cells w h = Some grid
            \<and> grid ! (unat y * unat w + unat x) = 255)"
proof -
  define p where "p = unat y * unat w + unat x"
  have traj: "\<exists>grid. generations k cells w h = Some grid
            \<and> unat (grid ! p) = min 255 (unat (cells ! p) + k)" if "k \<le> 260" for k
    unfolding p_def
  proof (rule survivor_age [OF assms(2,3,4) assms(1) assms(5)], intro allI impI)
    fix j assume "j < k"
    then have "j < 260" using that by simp
    with assms(6) show "\<exists>grid count. generations j cells w h = Some grid
          \<and> neighbors grid x y w h = Some count \<and> (count = 2 \<or> count = 3)"
      by blast
  qed
  have "0 < unat (cells ! p)" using assms(5) by (simp add: p_def unat_gt_0)
  then have "min 255 (unat (cells ! p) + 260) = 255" by simp
  with traj [of 260] obtain grid where g: "generations 260 cells w h = Some grid"
    "unat (grid ! p) = 255" by auto
  have "unat (grid ! p) = unat (255 :: u8)" using g(2) by simp
  then have "grid ! p = 255" by (simp only: word_unat_eq_iff)
  with g(1) traj show ?thesis unfolding p_def by blast
qed

theorem age_saturates_witness:
  "\<exists>grid. generations 260 [0, 0, 0, 0, 1, 1, 0, 1, 1] 3 3 = Some grid \<and> grid ! 4 = 255"
proof -
  have len: "length (block_3x3 1) = unat (3 :: u32) * unat (3 :: u32)"
    and small: "unat (3 :: u32) * unat (3 :: u32) < 2 ^ 31" and xy: "(1 :: u32) < 3"
    and alive: "block_3x3 1 ! (unat (1 :: u32) * unat (3 :: u32) + unat (1 :: u32)) \<noteq> 0"
    by (simp_all add: block_3x3_def)
  have survive: "\<forall>k < 260. \<exists>grid count. generations k (block_3x3 1) 3 3 = Some grid
          \<and> neighbors grid 1 1 3 3 = Some count \<and> (count = 2 \<or> count = 3)"
  proof (intro allI impI)
    fix k :: nat
    obtain b where "b \<noteq> 0" "generations k (block_3x3 1) 3 3 = Some (block_3x3 b)"
      using block_3x3_generations [of 1 k] by auto
    then show "\<exists>grid count. generations k (block_3x3 1) 3 3 = Some grid
          \<and> neighbors grid 1 1 3 3 = Some count \<and> (count = 2 \<or> count = 3)"
      by (simp add: block_3x3_neighbors)
  qed
  from age_saturates [OF len small xy xy alive survive, THEN conjunct2]
  show ?thesis by (simp add: block_3x3_def)
qed

section \<open>The block on a 5 by 5 grid\<close>

text \<open>
  Claim C6. On the 5 by 5 grid that is dead except for the 2 by 2 block of cells of age 1
  at rows and columns 2 and 3, one call of \<^verbatim>\<open>updateCells\<close> returns the grid in which
  exactly those four cells are alive, each of age 2, and every other cell is 0.
\<close>

theorem updateCells_block_5x5:
  "updateCells
     [0, 0, 0, 0, 0,
      0, 0, 0, 0, 0,
      0, 0, 1, 1, 0,
      0, 0, 1, 1, 0,
      0, 0, 0, 0, 0] 5 5
   = Some
     [0, 0, 0, 0, 0,
      0, 0, 0, 0, 0,
      0, 0, 2, 2, 0,
      0, 0, 2, 2, 0,
      0, 0, 0, 0, 0]"
  by code_simp

section \<open>The pixel encoder\<close>

text \<open>
  Claim C3. Given a pixel buffer as long as the grid, \<^verbatim>\<open>updatePixelData\<close> returns the
  buffer that holds, at every index, the function \<open>pixel\<close> of the cell at that index,
  whatever the buffer held before. For a cell of age \<open>k > 0\<close> the most significant
  byte of the pixel is \<open>k\<close> and its lower 24 bits are the constant \<open>0x00ff00\<close>; for
  a dead cell the pixel is 0; for a grid of dead cells the whole buffer is 0.
\<close>

theorem updatePixelData_encodes:
  assumes "length pixels = length cells"
  shows "\<exists>out. updatePixelData pixels cells = Some out \<and> out = map pixel cells
           \<and> length out = length cells
           \<and> (\<forall>i < length cells.
                 (cells ! i \<noteq> 0 \<longrightarrow>
                    drop_bit 24 (out ! i) = ucast (cells ! i) \<and> take_bit 24 (out ! i) = 0x00ff00)
                 \<and> (cells ! i = 0 \<longrightarrow> out ! i = 0))
           \<and> ((\<forall>c \<in> set cells. c = 0) \<longrightarrow> (\<forall>p \<in> set out. p = 0))"
proof -
  have "updatePixelData pixels cells = Some (map pixel cells)"
    using assms by (simp add: updatePixelData_eq)
  moreover have "drop_bit 24 (map pixel cells ! i) = ucast (cells ! i)"
      "take_bit 24 (map pixel cells ! i) = 0x00ff00"
    if "i < length cells" "cells ! i \<noteq> 0" for i
    using that by (simp_all add: pixel_top pixel_low)
  moreover have "map pixel cells ! i = 0" if "i < length cells" "cells ! i = 0" for i
    using that by (simp add: pixel_dead)
  moreover have "\<forall>p \<in> set (map pixel cells). p = 0" if "\<forall>c \<in> set cells. c = 0"
    using that by (auto simp add: pixel_dead)
  ultimately show ?thesis by simp
qed

theorem updatePixelData_encodes_witness:
  "updatePixelData [5, 6, 7] [0, 3, 255] = Some [0, 0x0300ff00, 0xff00ff00]
   \<and> updatePixelData [5, 6, 7] [0, 0, 0] = Some [0, 0, 0]"
  using updatePixelData_encodes [of "[5, 6, 7]" "[0, 3, 255]"]
    updatePixelData_encodes [of "[5, 6, 7]" "[0, 0, 0]"]
  by (simp add: pixel_def)

section \<open>Seeding the grid\<close>

text \<open>
  Claim C4, as amended. For \<open>width, height > 0\<close> whose product is within the range of
  \<^verbatim>\<open>int\<close>, \<^verbatim>\<open>createCells\<close> returns exactly \<open>width * height\<close> cells; cell \<open>i\<close> is 1
  when the \<open>i\<close>-th draw is below 15 and 0 otherwise, so it depends on its own draw
  only. A draw is one of the 101 values 0 to 100, and 15 of them are below 15: with a
  uniform source a cell is alive with probability 15 / 101.
\<close>

theorem createCells_seeds:
  assumes "0 < sint width" and "0 < sint height" and "sint width * sint height < 2 ^ 31"
  shows "\<exists>cells. createCells width height msg draws = Inr cells
           \<and> length cells = nat (sint width * sint height)
           \<and> (\<forall>i < length cells. cells ! i = (if draws i < 15 then 1 else 0))
           \<and> set dist_values = {d. d \<le> 100} \<and> length dist_values = 101
           \<and> length (filter (\<lambda>d. seed d = 1) dist_values) = 15"
proof -
  have "0 \<le> sint width * sint height" using assms(1,2) by simp
  then have "vector_size width height msg = Inr (nat (sint width * sint height))"
    using assms(3) by (rule vector_size_eq)
  then have "createCells width height msg draws
      = Inr (map (\<lambda>i. seed (draws i)) [0..<nat (sint width * sint height)])"
    by (simp add: createCells_def)
  moreover have "map (\<lambda>i. seed (draws i)) [0..<n] ! i = (if draws i < 15 then 1 else 0)"
    if "i < n" for i n
    using that by (simp add: seed_def)
  ultimately show ?thesis
    using dist_values_range dist_values_length dist_values_alive by simp
qed

theorem createCells_seeds_witness:
  "\<exists>cells. createCells 3 2 [] (\<lambda>i. if even i then 14 else 15) = Inr cells
      \<and> length cells = 6 \<and> cells ! 0 = 1 \<and> cells ! 1 = 0"
proof -
  have "0 < sint (3 :: u32)" "0 < sint (2 :: u32)" "sint (3 :: u32) * sint (2 :: u32) < 2 ^ 31"
    by simp_all
  from createCells_seeds [OF this, of "[]" "\<lambda>i. if even i then 14 else 15"]
  obtain cells where c: "createCells 3 2 [] (\<lambda>i. if even i then 14 else 15) = Inr cells"
    "length cells = nat (sint (3 :: u32) * sint (2 :: u32))"
    "\<forall>i < length cells. cells ! i = (if (if even i then 14 else 15) < (15 :: u8) then 1 else 0)"
    by blast
  have l: "length cells = 6" using c(2) by simp
  then have "cells ! 0 = 1" "cells ! 1 = 0" using c(3) by simp_all
  with c(1) l show ?thesis by simp
qed

text \<open>
  The claim as stated gives the probability as 15 in 100. The share of the values of
  the distribution that seed an alive cell is not that.
\<close>

theorem seed_probability_counterexample:
  "\<not> (100 * length (filter (\<lambda>d. seed d = 1) dist_values) = 15 * length dist_values)"
  by (simp add: dist_values_length dist_values_alive)

section \<open>Determinism\<close>

text \<open>
  Claim C10. Two runs of \<^verbatim>\<open>updateCells\<close> on the same grid with the same width and
  height return the same grid, whatever the memory around the snapshot and around the
  grid holds in either run (the only other thing the function could read), and leave
  that memory as it was; the grid is the one the model with \<open>None\<close> returns. On a
  buffer shorter than \<open>w * h\<close> the result does depend on that memory
  (\<open>updateCells_mem_short_buffer\<close>). Two runs of \<^verbatim>\<open>updatePixelData\<close> on the same grid
  return the same pixel buffer, whatever the two buffers held before. The random draws
  reach \<^verbatim>\<open>main\<close> through the seeding in \<^verbatim>\<open>createCells\<close> only: two runs whose draws
  agree, on the first \<open>field_w * field_h\<close> of them, in being below 15 or not are the
  same run, whatever the draws are otherwise and after them.
\<close>

theorem update_deterministic:
  assumes "length cells = unat w * unat h" and "unat w * unat h < 2 ^ 31"
    and "length pixels1 = length cells" and "length pixels2 = length cells"
    and "\<forall>i < nat (sint (word_of_int (sint (current_w p) sdiv 2)
                         * word_of_int (sint (current_h p) sdiv 2) :: u32)).
           seed (draws i) = seed (dist p i)"
  shows "(\<exists>grid. updateCells_mem around1 beyond1 cells w h = (grid, beyond1)
            \<and> updateCells_mem around2 beyond2 cells w h = (grid, beyond2)
            \<and> updateCells cells w h = Some grid)
       \<and> (\<exists>buffer. updatePixelData pixels1 cells = Some buffer
            \<and> updatePixelData pixels2 cells = Some buffer)
       \<and> main (p\<lparr>dist := draws\<rparr>) = main p"
proof (intro conjI)
  have "updateCells cells w h = Some (spec_generation cells (unat w) (unat h))"
    using assms(1,2) by (rule updateCells_eq)
  then show "\<exists>grid. updateCells_mem around1 beyond1 cells w h = (grid, beyond1)
            \<and> updateCells_mem around2 beyond2 cells w h = (grid, beyond2)
            \<and> updateCells cells w h = Some grid"
    by (simp add: updateCells_mem_sim)
  show "\<exists>buffer. updatePixelData pixels1 cells = Some buffer
            \<and> updatePixelData pixels2 cells = Some buffer"
    using assms(3,4) by (simp add: updatePixelData_eq)
  have "createCells (word_of_int (sint (current_w p) sdiv 2))
           (word_of_int (sint (current_h p) sdiv 2)) (length_error_what p) draws
         = createCells (word_of_int (sint (current_w p) sdiv 2))
           (word_of_int (sint (current_h p) sdiv 2)) (length_error_what p) (dist p)"
    using assms(5) by (rule createCells_cong)
  then show "main (p\<lparr>dist := draws\<rparr>) = main p"
    by (simp add: main_def handler_def Let_def cong: sum.case_cong)
qed

theorem update_deterministic_witness:
  "(\<exists>grid. updateCells_mem (\<lambda>i. 1) (\<lambda>i. 2) [0, 0, 0, 0, 7, 255, 0, 1, 0] 3 3 = (grid, \<lambda>i. 2)
      \<and> updateCells_mem (\<lambda>i. 0) (\<lambda>i. 3) [0, 0, 0, 0, 7, 255, 0, 1, 0] 3 3 = (grid, \<lambda>i. 3)
      \<and> updateCells [0, 0, 0, 0, 7, 255, 0, 1, 0] 3 3 = Some grid)
   \<and> (\<exists>buffer. updatePixelData [1, 2, 3, 4, 5, 6, 7, 8, 9] [0, 0, 0, 0, 7, 255, 0, 1, 0] = Some buffer
      \<and> updatePixelData [0, 0, 0, 0, 0, 0, 0, 0, 0] [0, 0, 0, 0, 7, 255, 0, 1, 0] = Some buffer)
   \<and> main (demo\<lparr>dist := \<lambda>i. if i < 9 then (if even i then 14 else 100) else 7\<rparr>)
       = main (demo\<lparr>dist := \<lambda>i. if even i then 3 else 20\<rparr>)
   \<and> createCells 3 3 [] (\<lambda>i. if even i then 3 else 20) = Inr [1, 0, 1, 0, 1, 0, 1, 0, 1]"
proof -
  have len: "length [0, 0, 0, 0, 7, 255, 0, 1, 0 :: u8] = unat (3 :: u32) * unat (3 :: u32)"
    and small: "unat (3 :: u32) * unat (3 :: u32) < 2 ^ 31"
    and lp: "length [1, 2, 3, 4, 5, 6, 7, 8, 9 :: u32] = length [0, 0, 0, 0, 7, 255, 0, 1, 0 :: u8]"
      "length [0, 0, 0, 0, 0, 0, 0, 0, 0 :: u32] = length [0, 0, 0, 0, 7, 255, 0, 1, 0 :: u8]"
    by simp_all
  define p where "p = demo\<lparr>dist := \<lambda>i. if even i then 3 else 20\<rparr>"
  have draws: "\<forall>i < nat (sint (word_of_int (sint (current_w p) sdiv 2)
                         * word_of_int (sint (current_h p) sdiv 2) :: u32)).
           seed (if i < 9 then (if even i then 14 else 100) else 7) = seed (dist p i)"
    by (simp add: p_def demo_def seed_def signed_divide_int_def)
  have seeded: "createCells 3 3 [] (\<lambda>i. if even i then 3 else 20) = Inr [1, 0, 1, 0, 1, 0, 1, 0, 1]"
    by code_simp
  from update_deterministic [OF len small lp draws,
      of "\<lambda>i. 1" "\<lambda>i. 2" "\<lambda>i. 0" "\<lambda>i. 3"] seeded
  show ?thesis by (simp add: p_def)
qed

section \<open>The order of the steps of the loop\<close>

text \<open>
  Claim C9. For a field of \<open>w * h\<close> cells with a pixel buffer of the same length,
  the steps of the loop come in groups of four, one group per pass: the buffer is
  encoded, the grid is advanced, the buffer is uploaded and presented, the events are
  drained. In pass \<open>k\<close> the buffer that is encoded and the buffer that is presented
  are both the encoding of the grid after \<open>k\<close> generations, which is the grid at the
  start of that pass, and the grid the pass leaves is that grid advanced once.
\<close>

theorem frame_loop_order:
  assumes "length cells = unat w * unat h" and "unat w * unat h < 2 ^ 31"
    and "length pixels = length cells"
    and "frame_loop w h pixels cells polls = (steps, out)"
  shows "\<exists>n \<le> length polls. length steps = 4 * n
        \<and> (\<forall>k < n. \<exists>grid grid'. generations k cells w h = Some grid
               \<and> updateCells grid w h = Some grid'
               \<and> steps ! (4 * k) = Encoded (map pixel grid)
               \<and> steps ! (4 * k + 1) = Advanced grid'
               \<and> steps ! (4 * k + 2) = Presented (map pixel grid)
               \<and> steps ! (4 * k + 3) = Drained (polls ! k))"
  using assms(2,1,3,4) by (rule frame_loop_steps)

theorem frame_loop_order_witness:
  "\<exists>steps out grid grid'.
      frame_loop 3 3 [9, 9, 9, 9, 9, 9, 9, 9, 9] [0, 0, 0, 0, 1, 1, 0, 1, 1] [[SDL_other], [SDL_QUIT]]
        = (steps, out)
      \<and> length steps = 8
      \<and> generations 1 [0, 0, 0, 0, 1, 1, 0, 1, 1] 3 3 = Some grid
      \<and> updateCells grid 3 3 = Some grid'
      \<and> steps ! 4 = Encoded (map pixel grid)
      \<and> steps ! 5 = Advanced grid'
      \<and> steps ! 6 = Presented (map pixel grid)
      \<and> steps ! 7 = Drained [SDL_QUIT]"
proof -
  define S where "S = fst (frame_loop 3 3 [9, 9, 9, 9, 9, 9, 9, 9, 9] [0, 0, 0, 0, 1, 1, 0, 1, 1]
    [[SDL_other], [SDL_QUIT]])"
  have ev: "frame_loop 3 3 [9, 9, 9, 9, 9, 9, 9, 9, 9] [0, 0, 0, 0, 1, 1, 0, 1, 1]
      [[SDL_other], [SDL_QUIT]] = (S, Return 0)"
    unfolding S_def by (simp only: frame_loop_block_3x3 fst_conv)
  have lenS: "length S = 8"
    unfolding S_def by (simp only: frame_loop_block_3x3 fst_conv) simp
  have len: "length [0, 0, 0, 0, 1, 1, 0, 1, 1 :: u8] = unat (3 :: u32) * unat (3 :: u32)"
    and small: "unat (3 :: u32) * unat (3 :: u32) < 2 ^ 31"
    and lenp: "length [9, 9, 9, 9, 9, 9, 9, 9, 9 :: u32] = length [0, 0, 0, 0, 1, 1, 0, 1, 1 :: u8]"
    by simp_all
  from frame_loop_order [OF len small lenp ev]
  obtain n where n: "length S = 4 * n"
    and ticks: "\<And>k. k < n \<Longrightarrow> \<exists>grid grid'.
        generations k [0, 0, 0, 0, 1, 1, 0, 1, 1] 3 3 = Some grid
        \<and> updateCells grid 3 3 = Some grid'
        \<and> S ! (4 * k) = Encoded (map pixel grid)
        \<and> S ! (4 * k + 1) = Advanced grid'
        \<and> S ! (4 * k + 2) = Presented (map pixel grid)
        \<and> S ! (4 * k + 3) = Drained ([[SDL_other], [SDL_QUIT]] ! k)"
    by blast
  have "1 < n" using n lenS by simp
  from ticks [OF this] obtain grid grid' where
    "generations 1 [0, 0, 0, 0, 1, 1, 0, 1, 1] 3 3 = Some grid"
    "updateCells grid 3 3 = Some grid'"
    "S ! 4 = Encoded (map pixel grid)" "S ! 5 = Advanced grid'"
    "S ! 6 = Presented (map pixel grid)" "S ! 7 = Drained [SDL_QUIT]"
    by (auto simp del: generations.simps)
  with ev lenS show ?thesis by blast
qed

section \<open>The text written for an exception\<close>

text \<open>
  Claim C8. When \<^verbatim>\<open>SDL_Init\<close> fails, \<^verbatim>\<open>main\<close> throws the \<^verbatim>\<open>std::runtime_error\<close>
  with the message \<^verbatim>\<open>SDL initialize failed!\<close> and returns 1, as the claim says; but
  the handler catches by value, and the text it writes to \<^verbatim>\<open>std::cerr\<close> is the
  \<^verbatim>\<open>what()\<close> of a plain \<^verbatim>\<open>std::exception\<close> (here that of libstdc++), not the message
  of the exception that was raised. The lemmas \<open>main_returns_0\<close> and
  \<open>main_returns_1\<close> above give the return codes in general.
\<close>

theorem main_init_failure_message:
  "main (demo\<lparr>SDL_Init := 1\<rparr>)
     = handler (demo\<lparr>SDL_Init := 1\<rparr>) (Runtime_error ''SDL initialize failed!'')
   \<and> handler (demo\<lparr>SDL_Init := 1\<rparr>) (Runtime_error ''SDL initialize failed!'')
     = ([], [''std::exception''], Return 1)
   \<and> what ''std::exception'' (Runtime_error ''SDL initialize failed!'') = ''SDL initialize failed!''"
  by (simp add: main_def handler_def catch_by_value_def demo_def)

end
